theory Spec2Isabelle
  imports Complex_Main "HOL-Library.Word" "HOL-Library.Log_Nat" "HOL-Library.Multiset"
begin

section \<open>BiggerTask: capture, playback, macro files and hotkeys\<close>

text \<open>
  A shallow embedding of \<^verbatim>\<open>BiggerTask.cpp\<close> (the recorder, the player and the
  \<^verbatim>\<open>.recq\<close> file format) and of its later revision with hotkey combos (the global key
  watcher, the combo handler and the combo capture dialog). Where both revisions hold a
  function, their bodies agree and one definition stands for both.

  C \<^verbatim>\<open>int\<close> and \<^verbatim>\<open>unsigned int\<close> are 32-bit words (read with \<open>sint\<close> where the
  source compares signed values). \<^verbatim>\<open>std::int64_t\<close> clock values and timestamps are
  \<open>int\<close>. Readings of the monotonic millisecond clock and their differences stay far
  inside 64 bits; a timestamp read from a file and the offset the player computes from it
  need not, so the conversion of a double to \<^verbatim>\<open>std::int64_t\<close> and the addition that
  gives the player's target are written out as the 64-bit machine computes them. A
  \<^verbatim>\<open>double\<close> is the rational it denotes, with the rounding of each conversion and
  division written out.
\<close>

subsection \<open>Event and monitor models\<close>

type_synonym cint = "32 word"
type_synonym cuint = "32 word"

datatype Type = MouseMove | MouseButton | Key

text \<open>
  \<^verbatim>\<open>struct Event\<close>. The fields \<^verbatim>\<open>x\<close> and \<^verbatim>\<open>y\<close> are \<open>ev_x\<close> and \<open>ev_y\<close> here.
\<close>

record Event =
  type :: Type
  ms_since_start :: int
  ev_x :: cint
  ev_y :: cint
  button :: cint
  pressed :: bool
  keycode :: cuint
  monitor :: string
  relx :: cint
  rely :: cint

subsection \<open>Config and combos\<close>

record HotkeyCombo =
  keys :: "cuint list"
  displayName :: string

record Config =
  lastDir :: string
  startRecording :: HotkeyCombo
  startPlayback :: HotkeyCombo
  stopPlayback :: HotkeyCombo

subsection \<open>Raw XInput2 events\<close>

datatype evtype =
  XI_RawMotion | XI_RawButtonPress | XI_RawButtonRelease | XI_RawKeyPress | XI_RawKeyRelease
  | XI_Other

text \<open>
  What \<^verbatim>\<open>XNextEvent\<close> hands to a worker loop: \<open>Foreign\<close> is an event that is not a
  generic event of the XInput extension or whose data cannot be fetched (the loops skip
  it), \<open>Raw ty d\<close> a raw event of type \<open>ty\<close> with \<^verbatim>\<open>detail\<close> \<open>d\<close>.
\<close>

datatype xevent = Foreign | Raw evtype cint

subsection \<open>Global key watcher\<close>

text \<open>
  \<^verbatim>\<open>std::set<unsigned int> downSet\<close> is a strictly increasing list: iterating the set
  yields its elements in ascending order.
\<close>

definition set_insert :: "cuint \<Rightarrow> cuint list \<Rightarrow> cuint list" where
  "set_insert c xs = (if c \<in> set xs then xs else insort c xs)"

definition set_erase :: "cuint \<Rightarrow> cuint list \<Rightarrow> cuint list" where
  "set_erase c xs = removeAll c xs"

text \<open>
  One turn of the watcher's loop on a pending event: the new \<^verbatim>\<open>downSet\<close> and the
  vector emitted with \<^verbatim>\<open>currentDownSetChanged\<close>, if any.
\<close>

fun watcher_step :: "cuint list \<Rightarrow> xevent \<Rightarrow> cuint list \<times> cuint list option" where
  "watcher_step downSet Foreign = (downSet, None)"
| "watcher_step downSet (Raw XI_RawKeyPress code) =
     (let downSet' = set_insert code downSet in (downSet', Some downSet'))"
| "watcher_step downSet (Raw XI_RawKeyRelease code) =
     (let downSet' = set_erase code downSet in (downSet', Some downSet'))"
| "watcher_step downSet (Raw _ code) = (downSet, None)"

fun watcher_loop :: "cuint list \<Rightarrow> xevent list \<Rightarrow> cuint list list" where
  "watcher_loop downSet [] = []"
| "watcher_loop downSet (ev # rest) =
     (case watcher_step downSet ev of
        (downSet', None) \<Rightarrow> watcher_loop downSet' rest
      | (downSet', Some v) \<Rightarrow> v # watcher_loop downSet' rest)"

text \<open>
  \<^verbatim>\<open>GlobalKeyWatcher::run\<close>: \<open>ready\<close> says that the display opened and XInput2 is
  there; the result lists the emitted down-sets in order.
\<close>

definition GlobalKeyWatcher_run :: "bool \<Rightarrow> xevent list \<Rightarrow> cuint list list" where
  "GlobalKeyWatcher_run ready evs = (if ready then watcher_loop [] evs else [])"

subsection \<open>The combo handler of the main window\<close>

datatype slot = onToggleRecord | onTogglePlay | onStopPlaybackHotkey

text \<open>
  The test the handler repeats for each of the three combos: the combo is not empty and
  its sorted keys equal the sorted down-set.
\<close>

definition combo_fires :: "HotkeyCombo \<Rightarrow> cuint list \<Rightarrow> bool" where
  "combo_fires c downset = (keys c \<noteq> [] \<and> sort (keys c) = sort downset)"

text \<open>The slots the handler of \<^verbatim>\<open>currentDownSetChanged\<close> invokes, in order.\<close>

definition currentDownSetChanged :: "Config \<Rightarrow> cuint list \<Rightarrow> slot list" where
  "currentDownSetChanged config downset =
     (if combo_fires (startRecording config) downset then [onToggleRecord] else []) @
     (if combo_fires (startPlayback config) downset then [onTogglePlay] else []) @
     (if combo_fires (stopPlayback config) downset then [onStopPlaybackHotkey] else [])"

fun combo_of :: "Config \<Rightarrow> slot \<Rightarrow> HotkeyCombo" where
  "combo_of config onToggleRecord = startRecording config"
| "combo_of config onTogglePlay = startPlayback config"
| "combo_of config onStopPlaybackHotkey = stopPlayback config"

text \<open>Every slot invocation a stream of raw events causes, in order.\<close>

definition hotkey_session :: "Config \<Rightarrow> xevent list \<Rightarrow> slot list" where
  "hotkey_session config evs =
     concat (map (currentDownSetChanged config) (GlobalKeyWatcher_run True evs))"

text \<open>
  The keys that are down after a stream of raw events, told from the stream alone:
  \<open>key_flags c evs\<close> lists the raw key events of keycode \<open>c\<close> in order, a press as
  \<open>True\<close> and a release as \<open>False\<close>, and the key is down when the last of them is a
  press. \<open>key_event\<close> tells the raw key presses and releases from the other events.
\<close>

definition key_flags :: "cuint \<Rightarrow> xevent list \<Rightarrow> bool list" where
  "key_flags c evs = map (\<lambda>ev. ev = Raw XI_RawKeyPress c)
     (filter (\<lambda>ev. ev = Raw XI_RawKeyPress c \<or> ev = Raw XI_RawKeyRelease c) evs)"

definition key_held :: "xevent list \<Rightarrow> cuint \<Rightarrow> bool" where
  "key_held evs c = (key_flags c evs \<noteq> [] \<and> last (key_flags c evs))"

fun key_event :: "xevent \<Rightarrow> bool" where
  "key_event (Raw XI_RawKeyPress c) = True"
| "key_event (Raw XI_RawKeyRelease c) = True"
| "key_event ev = False"

subsection \<open>Combo capture dialog\<close>

fun join :: "string \<Rightarrow> string list \<Rightarrow> string" where
  "join sep [] = []"
| "join sep [p] = p"
| "join sep (p # q # ps) = p @ sep @ join sep (q # ps)"

text \<open>
  \<^verbatim>\<open>comboToDisplay\<close>; \<open>keyname\<close> is \<^verbatim>\<open>keycodeToString\<close> under the keyboard mapping of
  the X server.
\<close>

definition comboToDisplay :: "(cuint \<Rightarrow> string) \<Rightarrow> cuint list \<Rightarrow> string" where
  "comboToDisplay keyname ks = (if ks = [] then ''None'' else join '' + '' (map keyname ks))"

datatype dialog_event = CapturedKey cuint | Reset | Save | Cancel

text \<open>The sequence \<^verbatim>\<open>seq\<close> when the dialog starts to run.\<close>

definition initial_seq :: "HotkeyCombo \<Rightarrow> cuint list" where
  "initial_seq target = (let seq = keys target in if 3 \<le> length seq then [] else seq)"

definition capturedKey :: "cuint list \<Rightarrow> cuint \<Rightarrow> cuint list" where
  "capturedKey seq k =
     (if k \<in> set seq then seq else if length seq < 3 then seq @ [k] else seq)"

definition btnSave :: "(cuint \<Rightarrow> string) \<Rightarrow> cuint list \<Rightarrow> HotkeyCombo" where
  "btnSave keyname seq =
     \<lparr>keys = seq, displayName = (if seq = [] then ''None'' else comboToDisplay keyname seq)\<rparr>"

text \<open>
  The dialog's event loop: \<open>Some c\<close> when Save committed the combo \<open>c\<close>, \<open>None\<close> when
  the dialog was cancelled or closed.
\<close>

fun dialog_loop :: "(cuint \<Rightarrow> string) \<Rightarrow> cuint list \<Rightarrow> dialog_event list \<Rightarrow> HotkeyCombo option" where
  "dialog_loop keyname seq [] = None"
| "dialog_loop keyname seq (CapturedKey k # rest) = dialog_loop keyname (capturedKey seq k) rest"
| "dialog_loop keyname seq (Reset # rest) = dialog_loop keyname [] rest"
| "dialog_loop keyname seq (Save # rest) = Some (btnSave keyname seq)"
| "dialog_loop keyname seq (Cancel # rest) = None"

text \<open>\<^verbatim>\<open>openCaptureDialog\<close>: the combo \<^verbatim>\<open>*target\<close> holds when the dialog has closed.\<close>

definition openCaptureDialog :: "(cuint \<Rightarrow> string) \<Rightarrow> HotkeyCombo \<Rightarrow> dialog_event list \<Rightarrow> HotkeyCombo" where
  "openCaptureDialog keyname target evs =
     (case dialog_loop keyname (initial_seq target) evs of None \<Rightarrow> target | Some c \<Rightarrow> c)"

subsection \<open>Doubles\<close>

text \<open>
  A finite \<^verbatim>\<open>double\<close> is the rational it denotes. \<open>rnd53\<close> rounds a rational to the
  nearest number with a 53-bit significand, ties to the even significand, as IEEE 754
  binary64 does for every result in its normal range. The results here are conversions
  of 64-bit integers and their quotients by the speed, which are then truncated to an
  integer: a quotient below the normal range truncates to zero however it is rounded,
  and one beyond the largest double is an infinity in the source and a rational beyond
  \<open>2 ^ 63\<close> here, which the conversion to \<^verbatim>\<open>std::int64_t\<close> treats alike.
\<close>

definition pow2 :: "int \<Rightarrow> rat" where
  "pow2 e = (if 0 \<le> e then 2 ^ nat e else 1 / 2 ^ nat (- e))"

text \<open>\<open>ilog2 q\<close> is the exponent \<open>k\<close> with \<open>2 ^ k \<le> q < 2 ^ (k + 1)\<close>, for \<open>0 < q\<close>.\<close>

definition ilog2 :: "rat \<Rightarrow> int" where
  "ilog2 q = (if 1 \<le> q then bitlen \<lfloor>q\<rfloor> - 1 else - bitlen (\<lceil>1 / q\<rceil> - 1))"

definition round_half_even :: "rat \<Rightarrow> int" where
  "round_half_even m =
     (let f = \<lfloor>m\<rfloor>; r = m - of_int f
      in if r < 1 / 2 then f else if 1 / 2 < r then f + 1 else if even f then f else f + 1)"

definition rnd53 :: "rat \<Rightarrow> rat" where
  "rnd53 q =
     (if q = 0 then 0
      else let e = ilog2 \<bar>q\<bar> - 52
           in sgn q * of_int (round_half_even (\<bar>q\<bar> / pow2 e)) * pow2 e)"

text \<open>The conversion \<^verbatim>\<open>(double)t\<close> of a 64-bit integer.\<close>

definition double_of_int64 :: "int \<Rightarrow> rat" where
  "double_of_int64 t = rnd53 (of_int t)"

definition INT64_MIN :: int where
  "INT64_MIN = - (2 ^ 63)"

text \<open>
  The conversion \<^verbatim>\<open>(std::int64_t)d\<close>: truncation towards zero. Where the truncated
  value does not fit 64 bits C++ leaves the result undefined; the instruction the cast
  compiles to on x86-64 (\<^verbatim>\<open>cvttsd2si\<close>) then returns \<^verbatim>\<open>INT64_MIN\<close>, as it does for
  an infinity and for a NaN, and that is the value here.
\<close>

definition int64_of_double :: "rat \<Rightarrow> int" where
  "int64_of_double d =
     (let n = (if 0 \<le> d then \<lfloor>d\<rfloor> else \<lceil>d\<rceil>)
      in if - (2 ^ 63) \<le> n \<and> n < 2 ^ 63 then n else INT64_MIN)"

text \<open>A 64-bit integer that is a double: the conversion to \<^verbatim>\<open>double\<close> keeps it.\<close>

definition int64_double :: "int \<Rightarrow> bool" where
  "int64_double t = (- (2 ^ 63) \<le> t \<and> t < 2 ^ 63 \<and> double_of_int64 t = of_int t)"

text \<open>
  Division of two doubles. \<open>None\<close> is a quotient that is not finite because the
  divisor is zero: an infinity, or a NaN for \<open>0 / 0\<close>.
\<close>

definition fdiv :: "rat \<Rightarrow> rat \<Rightarrow> rat option" where
  "fdiv a b = (if b = 0 then None else Some (rnd53 (a / b)))"

text \<open>
  The sum of two \<^verbatim>\<open>std::int64_t\<close> as the machine adds them, modulo \<open>2 ^ 64\<close> (C++
  leaves the overflow of a signed addition undefined).
\<close>

definition add64 :: "int \<Rightarrow> int \<Rightarrow> int" where
  "add64 a b = (a + b + 2 ^ 63) mod 2 ^ 64 - 2 ^ 63"

subsection \<open>JSON values\<close>

text \<open>
  \<^verbatim>\<open>QJsonValue\<close>, with the accessors as Qt documents them: each returns the value
  when it has the asked type and a default otherwise; \<^verbatim>\<open>toInt\<close> also returns the
  default for a number that is not whole or does not fit an \<^verbatim>\<open>int\<close>. A
  \<^verbatim>\<open>QJsonObject\<close> is a list of members with distinct keys.
\<close>

datatype json =
  JNull | JBool bool | JDouble rat | JString string | JArray "json list"
  | JObject "(string \<times> json) list" | JUndefined

definition obj_value :: "(string \<times> json) list \<Rightarrow> string \<Rightarrow> json" where
  "obj_value obj k = (case map_of obj k of None \<Rightarrow> JUndefined | Some v \<Rightarrow> v)"

text \<open>The assignment \<^verbatim>\<open>obj[k] = v\<close>.\<close>

definition obj_set :: "string \<Rightarrow> json \<Rightarrow> (string \<times> json) list \<Rightarrow> (string \<times> json) list" where
  "obj_set k v obj = filter (\<lambda>m. fst m \<noteq> k) obj @ [(k, v)]"

fun toObject :: "json \<Rightarrow> (string \<times> json) list" where
  "toObject (JObject obj) = obj"
| "toObject _ = []"

fun toArray :: "json \<Rightarrow> json list" where
  "toArray (JArray a) = a"
| "toArray _ = []"

fun toString :: "json \<Rightarrow> string" where
  "toString (JString s) = s"
| "toString _ = []"

fun toDouble :: "json \<Rightarrow> rat" where
  "toDouble (JDouble d) = d"
| "toDouble _ = 0"

fun toBool :: "json \<Rightarrow> bool" where
  "toBool (JBool b) = b"
| "toBool _ = False"

fun toInt :: "json \<Rightarrow> cint" where
  "toInt (JDouble d) =
     (if d = of_int \<lfloor>d\<rfloor> \<and> - (2 ^ 31) \<le> \<lfloor>d\<rfloor> \<and> \<lfloor>d\<rfloor> < 2 ^ 31 then word_of_int \<lfloor>d\<rfloor> else 0)"
| "toInt _ = 0"

text \<open>
  The numbers of a \<^verbatim>\<open>QJsonValue\<close> are doubles: that is so in every value Qt parses
  from a file.
\<close>

primrec json_doubles :: "json \<Rightarrow> bool" where
  "json_doubles JNull = True"
| "json_doubles (JBool b) = True"
| "json_doubles (JDouble d) = (rnd53 d = d)"
| "json_doubles (JString s) = True"
| "json_doubles (JArray vs) = list_all id (map json_doubles vs)"
| "json_doubles (JObject ms) = list_all (\<lambda>m. snd m) (map (map_prod id json_doubles) ms)"
| "json_doubles JUndefined = True"

text \<open>A JSON number made from a C \<^verbatim>\<open>int\<close>.\<close>

definition JInt :: "cint \<Rightarrow> json" where
  "JInt n = JDouble (of_int (sint n))"

subsection \<open>Saving and loading a macro file\<close>

text \<open>
  The file is represented by the \<^verbatim>\<open>QJsonDocument\<close> written to it:
  \<^verbatim>\<open>QJsonDocument::toJson\<close> and \<^verbatim>\<open>fromJson\<close> are Qt's and return the document they
  were given. \<open>None\<close> is a file that cannot be opened; a file that is not JSON parses to
  the null document \<open>JNull\<close>.
\<close>

text \<open>The value-initialised \<^verbatim>\<open>Event e{}\<close>: the enum's first enumerator and the defaults.\<close>

definition Event0 :: Event where
  "Event0 = \<lparr>type = MouseMove, ms_since_start = 0, ev_x = 0, ev_y = 0, button = 0,
     pressed = False, keycode = 0, monitor = [], relx = 0, rely = 0\<rparr>"

text \<open>The body of the loop of \<^verbatim>\<open>saveRecq\<close>.\<close>

definition save_record :: "Event \<Rightarrow> json" where
  "save_record e =
     (let obj = obj_set ''t'' (JDouble (double_of_int64 (ms_since_start e))) []
      in JObject
        (if type e = MouseMove then
           obj_set ''y'' (JInt (ev_y e)) (obj_set ''x'' (JInt (ev_x e))
             (obj_set ''type'' (JString ''mm'') obj))
         else if type e = MouseButton then
           obj_set ''down'' (JBool (pressed e)) (obj_set ''btn'' (JInt (button e))
             (obj_set ''y'' (JInt (ev_y e)) (obj_set ''x'' (JInt (ev_x e))
               (obj_set ''type'' (JString ''mb'') obj))))
         else
           obj_set ''down'' (JBool (pressed e)) (obj_set ''code'' (JInt (keycode e))
             (obj_set ''type'' (JString ''key'') obj))))"

text \<open>
  \<^verbatim>\<open>saveRecq\<close>: whether the file could be written, and its content then.
\<close>

definition saveRecq :: "bool \<Rightarrow> Event list \<Rightarrow> bool \<times> json option" where
  "saveRecq writable evs =
     (let arr = JArray (map save_record evs);
          rootobj = obj_set ''events'' arr (obj_set ''format'' (JString ''recq-v1'') [])
      in if \<not> writable then (False, None) else (True, Some (JObject rootobj)))"

text \<open>
  The body of the loop over the \<^verbatim>\<open>events\<close> array of a wrapped document. A record
  whose \<^verbatim>\<open>type\<close> is none of the three is pushed as it stands after \<^verbatim>\<open>t\<close> was set.
\<close>

definition load_record_object :: "json \<Rightarrow> Event" where
  "load_record_object v =
     (let obj = toObject v;
          e = Event0\<lparr>ms_since_start := int64_of_double (toDouble (obj_value obj ''t''))\<rparr>;
          ty = toString (obj_value obj ''type'')
      in if ty = ''mm'' then
           e\<lparr>type := MouseMove, ev_x := toInt (obj_value obj ''x''), ev_y := toInt (obj_value obj ''y'')\<rparr>
         else if ty = ''mb'' then
           e\<lparr>type := MouseButton, ev_x := toInt (obj_value obj ''x''), ev_y := toInt (obj_value obj ''y''),
             button := toInt (obj_value obj ''btn''), pressed := toBool (obj_value obj ''down'')\<rparr>
         else if ty = ''key'' then
           e\<lparr>type := Key, keycode := toInt (obj_value obj ''code''), pressed := toBool (obj_value obj ''down'')\<rparr>
         else e)"

text \<open>The body of the loop over a legacy document, a bare array.\<close>

definition load_record_array :: "json \<Rightarrow> Event" where
  "load_record_array v =
     (let obj = toObject v;
          e = Event0\<lparr>ms_since_start := int64_of_double (toDouble (obj_value obj ''t''))\<rparr>;
          ty = toString (obj_value obj ''type'')
      in if ty = ''mm'' then
           e\<lparr>type := MouseMove, ev_x := toInt (obj_value obj ''x''), ev_y := toInt (obj_value obj ''y'')\<rparr>
         else if ty = ''mb'' then
           e\<lparr>type := MouseButton, ev_x := toInt (obj_value obj ''x''), ev_y := toInt (obj_value obj ''y''),
             button := toInt (obj_value obj ''btn''), pressed := toBool (obj_value obj ''down'')\<rparr>
         else if ty = ''key'' then
           e\<lparr>type := Key, keycode := toInt (obj_value obj ''code''), pressed := toBool (obj_value obj ''down'')\<rparr>
         else e)"

definition loadRecq :: "json option \<Rightarrow> Event list" where
  "loadRecq file =
     (case file of
        None \<Rightarrow> []
      | Some doc \<Rightarrow>
          (case doc of
             JObject rootobj \<Rightarrow> map load_record_object (toArray (obj_value rootobj ''events''))
           | JArray arr \<Rightarrow> map load_record_array arr
           | _ \<Rightarrow> []))"

text \<open>
  The fields an event does not carry for its type hold the defaults of the struct: the
  recorder and the loader only build such events.
\<close>

definition variant_fields_only :: "Event \<Rightarrow> bool" where
  "variant_fields_only e =
     (case type e of
        MouseMove \<Rightarrow> button e = 0 \<and> \<not> pressed e \<and> keycode e = 0
      | MouseButton \<Rightarrow> keycode e = 0
      | Key \<Rightarrow> ev_x e = 0 \<and> ev_y e = 0 \<and> button e = 0)"

subsection \<open>Monitor directory\<close>

text \<open>\<^verbatim>\<open>struct MonitorInfo\<close>; its fields \<^verbatim>\<open>x\<close> and \<^verbatim>\<open>y\<close> are \<open>mon_x\<close> and \<open>mon_y\<close>.\<close>

record MonitorInfo =
  name :: string
  mon_x :: cint
  mon_y :: cint
  width :: cint
  height :: cint

text \<open>
  What XRandR reports: \<open>None\<close> for the screen when
  \<^verbatim>\<open>XRRGetScreenResourcesCurrent\<close> returns null; for each output \<open>None\<close> when
  \<^verbatim>\<open>XRRGetOutputInfo\<close> returns null; for the CRTC of an output \<open>None\<close> when the
  output has none or \<^verbatim>\<open>XRRGetCrtcInfo\<close> returns null.
\<close>

record crtc_info =
  crtc_x :: cint
  crtc_y :: cint
  crtc_width :: cuint
  crtc_height :: cuint

record output_info =
  output_name :: string
  connected :: bool
  crtc :: "crtc_info option"

type_synonym screen = "output_info option list option"

definition no_monitor :: MonitorInfo where
  "no_monitor = \<lparr>name = [], mon_x = 0, mon_y = 0, width = 0, height = 0\<rparr>"

text \<open>
  The loop of \<^verbatim>\<open>findMonitorForPoint\<close> over the outputs. The comparisons are signed;
  \<^verbatim>\<open>crtc->x + w\<close> is the 32-bit sum.
\<close>

fun point_scan :: "output_info option list \<Rightarrow> cint \<Rightarrow> cint \<Rightarrow> MonitorInfo" where
  "point_scan [] x y = no_monitor"
| "point_scan (None # outs) x y = point_scan outs x y"
| "point_scan (Some out # outs) x y =
     (if connected out then
        (case crtc out of
           None \<Rightarrow> point_scan outs x y
         | Some c \<Rightarrow>
             (let w = crtc_width c; h = crtc_height c
              in if sint (crtc_x c) \<le> sint x \<and> sint x < sint (crtc_x c + w) \<and>
                    sint (crtc_y c) \<le> sint y \<and> sint y < sint (crtc_y c + h)
                 then \<lparr>name = output_name out, mon_x = crtc_x c, mon_y = crtc_y c,
                        width = w, height = h\<rparr>
                 else point_scan outs x y))
      else point_scan outs x y)"

definition findMonitorForPoint :: "screen \<Rightarrow> cint \<Rightarrow> cint \<Rightarrow> MonitorInfo" where
  "findMonitorForPoint scr x y =
     (case scr of None \<Rightarrow> no_monitor | Some outs \<Rightarrow> point_scan outs x y)"

fun name_scan :: "output_info option list \<Rightarrow> string \<Rightarrow> MonitorInfo" where
  "name_scan [] nm = no_monitor"
| "name_scan (None # outs) nm = name_scan outs nm"
| "name_scan (Some out # outs) nm =
     (if connected out then
        (case crtc out of
           None \<Rightarrow> name_scan outs nm
         | Some c \<Rightarrow>
             (if nm = output_name out
              then \<lparr>name = output_name out, mon_x = crtc_x c, mon_y = crtc_y c,
                     width = crtc_width c, height = crtc_height c\<rparr>
              else name_scan outs nm))
      else name_scan outs nm)"

definition findMonitorByName :: "screen \<Rightarrow> string \<Rightarrow> MonitorInfo" where
  "findMonitorByName scr nm =
     (case scr of None \<Rightarrow> no_monitor | Some outs \<Rightarrow> name_scan outs nm)"

subsection \<open>Recorder\<close>

text \<open>
  What the recorder reads from its environment while it handles one notification, or
  when it stops: the monotonic clock (\<^verbatim>\<open>now_ms()\<close>), the pointer position
  (\<^verbatim>\<open>XQueryPointer\<close>) and the monitor layout.
\<close>

record reading =
  now :: int
  pointer_x :: cint
  pointer_y :: cint
  layout :: screen

record recorder =
  events :: "Event list"
  last_x :: cint
  last_y :: cint
  downButtons :: "cint list"

text \<open>
  \<^verbatim>\<open>std::unordered_set<int> downButtons\<close> is a list without repetitions. The order
  in which the set yields its elements is not specified: it is the parameter
  \<open>iteration\<close> of the run.
\<close>

definition hash_insert :: "cint \<Rightarrow> cint list \<Rightarrow> cint list" where
  "hash_insert b bs = (if b \<in> set bs then bs else bs @ [b])"

definition hash_erase :: "cint \<Rightarrow> cint list \<Rightarrow> cint list" where
  "hash_erase b bs = removeAll b bs"

text \<open>The event a mouse notification records at position \<open>(x, y)\<close> and time \<open>t\<close>.\<close>

definition mouse_event :: "Type \<Rightarrow> int \<Rightarrow> screen \<Rightarrow> cint \<Rightarrow> cint \<Rightarrow> Event" where
  "mouse_event ty t scr x y =
     (let mi = findMonitorForPoint scr x y
      in Event0\<lparr>type := ty, ms_since_start := t, ev_x := x, ev_y := y,
           monitor := name mi, relx := x - mon_x mi, rely := y - mon_y mi\<rparr>)"

text \<open>One turn of the recorder's loop on a pending event.\<close>

fun recorder_step :: "int \<Rightarrow> recorder \<Rightarrow> xevent \<times> reading \<Rightarrow> recorder" where
  "recorder_step start st (Foreign, r) = st"
| "recorder_step start st (Raw XI_RawMotion detail, r) =
     (let t = now r - start; x = pointer_x r; y = pointer_y r
      in if x \<noteq> last_x st \<or> y \<noteq> last_y st
         then st\<lparr>events := events st @ [mouse_event MouseMove t (layout r) x y],
                 last_x := x, last_y := y\<rparr>
         else st)"
| "recorder_step start st (Raw XI_RawButtonPress detail, r) =
     (let t = now r - start; x = pointer_x r; y = pointer_y r
      in st\<lparr>downButtons := hash_insert detail (downButtons st),
             events := events st @
               [(mouse_event MouseButton t (layout r) x y)\<lparr>button := detail, pressed := True\<rparr>]\<rparr>)"
| "recorder_step start st (Raw XI_RawButtonRelease detail, r) =
     (let t = now r - start; x = pointer_x r; y = pointer_y r
      in st\<lparr>downButtons := hash_erase detail (downButtons st),
             events := events st @
               [(mouse_event MouseButton t (layout r) x y)\<lparr>button := detail, pressed := False\<rparr>]\<rparr>)"
| "recorder_step start st (Raw XI_RawKeyPress detail, r) =
     st\<lparr>events := events st @
       [Event0\<lparr>type := Key, ms_since_start := now r - start, keycode := detail, pressed := True\<rparr>]\<rparr>"
| "recorder_step start st (Raw XI_RawKeyRelease detail, r) =
     st\<lparr>events := events st @
       [Event0\<lparr>type := Key, ms_since_start := now r - start, keycode := detail, pressed := False\<rparr>]\<rparr>"
| "recorder_step start st (Raw XI_Other detail, r) = st"

definition recorder_init :: recorder where
  "recorder_init = \<lparr>events = [], last_x = - 1, last_y = - 1, downButtons = []\<rparr>"

text \<open>The loop, over the notifications handled before \<^verbatim>\<open>running\<close> is seen false.\<close>

definition capture_loop :: "int \<Rightarrow> (xevent \<times> reading) list \<Rightarrow> recorder" where
  "capture_loop start stream = foldl (recorder_step start) recorder_init stream"

text \<open>The releases synthesised after the loop, from the readings made then.\<close>

definition synthesized :: "(cint list \<Rightarrow> cint list) \<Rightarrow> int \<Rightarrow> recorder \<Rightarrow> reading \<Rightarrow> Event list" where
  "synthesized iteration start st stopped =
     (if downButtons st \<noteq> [] then
        (let x = pointer_x stopped; y = pointer_y stopped; t = now stopped - start
         in map (\<lambda>b. (mouse_event MouseButton t (layout stopped) x y)\<lparr>button := b, pressed := False\<rparr>)
              (iteration (downButtons st)))
      else [])"

datatype backend = DisplayFailed | NoXInput | OldXInput | Ready

datatype recording = Failed string | Recorded "Event list"

text \<open>
  \<^verbatim>\<open>RecorderThread::run\<close>: \<open>start\<close> is the clock when recording starts, \<open>stream\<close>
  the notifications handled with the readings made for each, \<open>stopped\<close> the readings
  made after the loop. \<open>Failed\<close> carries the status of a run that records nothing,
  \<open>Recorded\<close> the events handed over with \<^verbatim>\<open>finishedRecording\<close>.
\<close>

definition RecorderThread_run ::
  "backend \<Rightarrow> (cint list \<Rightarrow> cint list) \<Rightarrow> int \<Rightarrow> (xevent \<times> reading) list \<Rightarrow> reading \<Rightarrow> recording" where
  "RecorderThread_run s iteration start stream stopped =
     (case s of
        DisplayFailed \<Rightarrow> Failed ''Failed to open X display''
      | NoXInput \<Rightarrow> Failed ''XInput2 not available''
      | OldXInput \<Rightarrow> Failed ''XInput2 < 2.0''
      | Ready \<Rightarrow>
          (let st = capture_loop start stream
           in Recorded (events st @ synthesized iteration start st stopped)))"

text \<open>
  Button events of a log by button id: the press flags of the events of button \<open>b\<close>,
  in log order.
\<close>

definition button_flags :: "cint \<Rightarrow> Event list \<Rightarrow> bool list" where
  "button_flags b evs = map pressed (filter (\<lambda>e. type e = MouseButton \<and> button e = b) evs)"

text \<open>A sequence of flags that is press, release, press, release, and so on.\<close>

fun press_release_pairs :: "bool list \<Rightarrow> bool" where
  "press_release_pairs [] = True"
| "press_release_pairs [p] = False"
| "press_release_pairs (p # q # fs) = (p \<and> \<not> q \<and> press_release_pairs fs)"

text \<open>
  Every button id with an event in the log has a positive, even number of events,
  presses and releases alternating from a press.
\<close>

definition buttons_paired :: "Event list \<Rightarrow> bool" where
  "buttons_paired evs =
     (\<forall>b \<in> set (map button (filter (\<lambda>e. type e = MouseButton) evs)).
        button_flags b evs \<noteq> [] \<and> even (length (button_flags b evs)) \<and>
        press_release_pairs (button_flags b evs))"

text \<open>
  Streams in which every release notification is matched by an earlier press of the same
  button that no other release has taken: \<open>pending\<close> lists the presses not yet released.
\<close>

fun releases_matched :: "cint list \<Rightarrow> xevent list \<Rightarrow> bool" where
  "releases_matched pending [] = True"
| "releases_matched pending (Raw XI_RawButtonPress b # rest) = releases_matched (b # pending) rest"
| "releases_matched pending (Raw XI_RawButtonRelease b # rest) =
     (b \<in> set pending \<and> releases_matched (remove1 b pending) rest)"
| "releases_matched pending (ev # rest) = releases_matched pending rest"

text \<open>
  Streams in which, for every button, presses and releases alternate from a press: a
  press arrives only for a button that is not held, a release only for one that is.
\<close>

fun presses_alternate :: "cint list \<Rightarrow> xevent list \<Rightarrow> bool" where
  "presses_alternate held [] = True"
| "presses_alternate held (Raw XI_RawButtonPress b # rest) =
     (b \<notin> set held \<and> presses_alternate (hash_insert b held) rest)"
| "presses_alternate held (Raw XI_RawButtonRelease b # rest) =
     (b \<in> set held \<and> presses_alternate (hash_erase b held) rest)"
| "presses_alternate held (ev # rest) = presses_alternate held rest"

text \<open>
  The invariant of the recorder's loop on alternating streams: the held buttons are
  exactly those whose events lack the closing release.
\<close>

definition half_open :: "recorder \<Rightarrow> bool" where
  "half_open st =
     (distinct (downButtons st) \<and>
      (\<forall>b. press_release_pairs
         (button_flags b (events st) @ (if b \<in> set (downButtons st) then [False] else []))))"

text \<open>Example readings: one monitor \<^verbatim>\<open>DP-1\<close> of 1920 by 1080 at the origin.\<close>

abbreviation (input) one_monitor :: screen where
  "one_monitor \<equiv> Some [Some \<lparr>output_name = ''DP-1'', connected = True,
     crtc = Some \<lparr>crtc_x = 0, crtc_y = 0, crtc_width = 1920, crtc_height = 1080\<rparr>\<rparr>]"

abbreviation (input) read_at :: "int \<Rightarrow> cint \<Rightarrow> cint \<Rightarrow> reading" where
  "read_at t x y \<equiv> \<lparr>now = t, pointer_x = x, pointer_y = y, layout = one_monitor\<rparr>"

subsection \<open>Player\<close>

text \<open>The calls the player makes on the X server, and its own sleeps (milliseconds).\<close>

datatype xcall =
  XTestFakeMotionEvent cint cint
  | XTestFakeButtonEvent cint bool
  | XTestFakeKeyEvent cuint bool
  | Sleep nat

text \<open>
  After an injected press: a short sleep when the next event of the log releases the
  same button, a longer one and an automatic release otherwise. \<open>nxt\<close> is the event
  \<^verbatim>\<open>events[i+1]\<close> if there is one.
\<close>

definition tap_shaping :: "Event \<Rightarrow> Event option \<Rightarrow> xcall list" where
  "tap_shaping e nxt =
     (if pressed e then
        (let nextIsRelease = (case nxt of
                None \<Rightarrow> False
              | Some n \<Rightarrow> type n = MouseButton \<and> button n = button e \<and> \<not> pressed n)
         in if \<not> nextIsRelease then [Sleep 30, XTestFakeButtonEvent (button e) False]
            else [Sleep 15])
      else [])"

text \<open>
  The \<^verbatim>\<open>switch\<close> of the player's loop for one event: \<open>scr\<close> is the monitor layout
  at that moment. In the \<^verbatim>\<open>MouseButton\<close> case \<^verbatim>\<open>absx\<close> and \<^verbatim>\<open>absy\<close> start as
  the recorded coordinates and are read only where the monitor resolved.
\<close>

definition dispatch :: "screen \<Rightarrow> Event \<Rightarrow> Event option \<Rightarrow> xcall list" where
  "dispatch scr e nxt =
     (case type e of
        MouseMove \<Rightarrow>
          (let absx = ev_x e; absy = ev_y e;
               mi = (if monitor e \<noteq> [] then findMonitorByName scr (monitor e) else no_monitor);
               absx = (if monitor e \<noteq> [] \<and> name mi \<noteq> [] then mon_x mi + relx e else absx);
               absy = (if monitor e \<noteq> [] \<and> name mi \<noteq> [] then mon_y mi + rely e else absy)
           in [XTestFakeMotionEvent absx absy])
      | MouseButton \<Rightarrow>
          (let absx = ev_x e; absy = ev_y e;
               mi = (if monitor e \<noteq> [] then findMonitorByName scr (monitor e) else no_monitor);
               moved = (if monitor e \<noteq> [] \<and> name mi \<noteq> []
                        then (let absx = mon_x mi + relx e; absy = mon_y mi + rely e
                              in [XTestFakeMotionEvent absx absy])
                        else [])
           in moved @ [XTestFakeButtonEvent (button e) (pressed e)] @ tap_shaping e nxt)
      | Key \<Rightarrow> [XTestFakeKeyEvent (keycode e) (pressed e)])"

text \<open>
  The offset \<^verbatim>\<open>(std::int64_t)(e.ms_since_start / speed)\<close>: the timestamp is converted
  to a double, divided by the speed, and the quotient converted back.
\<close>

definition sched_offset :: "int \<Rightarrow> rat \<Rightarrow> int" where
  "sched_offset t speed =
     (case fdiv (double_of_int64 t) speed of
        None \<Rightarrow> INT64_MIN
      | Some q \<Rightarrow> int64_of_double q)"

text \<open>
  The environment of a playback run: whether the display opens; the monotonic clock
  when the run starts; \<open>lag n\<close>, the milliseconds that pass at the \<open>n\<close>-th clock step
  of the run (before a reading of the clock, or beyond the time a sleep asked for);
  \<open>stop_after\<close>, how many reads of \<^verbatim>\<open>running\<close> still see it true before
  \<^verbatim>\<open>stop()\<close> takes effect (\<open>None\<close> when nobody stops the player); and the monitor
  layout when event \<open>i\<close> of pass \<open>k\<close> is dispatched.
\<close>

record player_env =
  display_opens :: bool
  clock0 :: int
  lag :: "nat \<Rightarrow> nat"
  stop_after :: "nat option"
  layout_at :: "nat \<Rightarrow> nat \<Rightarrow> screen"

text \<open>
  One dispatched event: its pass and index, the clock reading \<^verbatim>\<open>start\<close> of its pass,
  its \<^verbatim>\<open>target\<close>, the clock when its \<^verbatim>\<open>switch\<close> is entered, and the calls made.
\<close>

record dispatched =
  pass :: nat
  index :: nat
  event :: Event
  pass_start :: int
  target_at :: int
  fired_at :: int
  calls :: "xcall list"

record player =
  clk :: int
  ticks :: nat
  reads :: nat
  trace :: "dispatched list"

definition now_ms :: "player_env \<Rightarrow> player \<Rightarrow> int \<times> player" where
  "now_ms env st =
     (let st' = st\<lparr>clk := clk st + int (lag env (ticks st)), ticks := Suc (ticks st)\<rparr>
      in (clk st', st'))"

text \<open>
  \<^verbatim>\<open>nanosleep\<close> for \<open>d\<close> milliseconds: it returns when at least that long has passed
  (no signal handler interrupts the thread).
\<close>

definition nanosleep :: "player_env \<Rightarrow> int \<Rightarrow> player \<Rightarrow> player" where
  "nanosleep env d st =
     st\<lparr>clk := clk st + d + int (lag env (ticks st)), ticks := Suc (ticks st)\<rparr>"

text \<open>What the \<open>r\<close>-th read of \<^verbatim>\<open>running\<close> in a run sees.\<close>

definition sees_running :: "player_env \<Rightarrow> nat \<Rightarrow> bool" where
  "sees_running env r = (case stop_after env of None \<Rightarrow> True | Some m \<Rightarrow> r < m)"

definition read_running :: "player_env \<Rightarrow> player \<Rightarrow> bool \<times> player" where
  "read_running env st = (sees_running env (reads st), st\<lparr>reads := Suc (reads st)\<rparr>)"

text \<open>
  The wait for the target instant: read the clock, and sleep for the difference when the
  target is later.
\<close>

definition sleep_until :: "player_env \<Rightarrow> int \<Rightarrow> player \<Rightarrow> player" where
  "sleep_until env tgt st =
     (let (n, st2) = now_ms env st
      in if tgt > n then nanosleep env (tgt - n) st2 else st2)"

text \<open>The sleeps among the calls of one dispatch advance the clock.\<close>

fun sleeps :: "player_env \<Rightarrow> xcall list \<Rightarrow> player \<Rightarrow> player" where
  "sleeps env [] st = st"
| "sleeps env (Sleep n # cs) st = sleeps env cs (nanosleep env (int n) st)"
| "sleeps env (c # cs) st = sleeps env cs st"


text \<open>
  The inner loop, from index \<open>i\<close> over the events that remain: the loop test reads
  \<^verbatim>\<open>running\<close> only while events remain.
\<close>

fun play_events :: "player_env \<Rightarrow> rat \<Rightarrow> nat \<Rightarrow> int \<Rightarrow> nat \<Rightarrow> Event list \<Rightarrow> player \<Rightarrow> player" where
  "play_events env speed k start i [] st = st"
| "play_events env speed k start i (e # rest) st =
     (let (running, st1) = read_running env st
      in if \<not> running then st1
         else
           (let tgt = add64 start (sched_offset (ms_since_start e) speed);
                st3 = sleep_until env tgt st1;
                cs = dispatch (layout_at env k i) e (case rest of [] \<Rightarrow> None | nx # _ \<Rightarrow> Some nx);
                st4 = st3\<lparr>trace := trace st3 @
                  [\<lparr>pass = k, index = i, event = e, pass_start = start, target_at = tgt,
                    fired_at = clk st3, calls = cs\<rparr>]\<rparr>
            in play_events env speed k start (Suc i) rest (sleeps env cs st4)))"

text \<open>The outer loop, with \<open>remaining\<close> passes to go from pass \<open>k\<close>.\<close>

fun play_loops :: "player_env \<Rightarrow> rat \<Rightarrow> Event list \<Rightarrow> nat \<Rightarrow> nat \<Rightarrow> player \<Rightarrow> player" where
  "play_loops env speed evs 0 k st = st"
| "play_loops env speed evs (Suc remaining) k st =
     (let (running, st1) = read_running env st
      in if \<not> running then st1
         else
           (let (start, st2) = now_ms env st1
            in play_loops env speed evs remaining (Suc k) (play_events env speed k start 0 evs st2)))"

record playback =
  statuses :: "string list"
  dispatches :: "dispatched list"
  final_releases :: "xcall list"

text \<open>
  \<^verbatim>\<open>PlayerThread::run\<close> (the numbers in the status text are left out). With
  \<^verbatim>\<open>loops\<close> not positive the outer loop does not run.
\<close>

definition PlayerThread_run :: "player_env \<Rightarrow> Event list \<Rightarrow> rat \<Rightarrow> cint \<Rightarrow> playback" where
  "PlayerThread_run env evs speed loops =
     (if evs = [] then \<lparr>statuses = [''No events to play''], dispatches = [], final_releases = []\<rparr>
      else if \<not> display_opens env
      then \<lparr>statuses = [''Failed to open X display''], dispatches = [], final_releases = []\<rparr>
      else
        (let st = play_loops env speed evs (nat (sint loops)) 0
                    \<lparr>clk = clock0 env, ticks = 0, reads = 0, trace = []\<rparr>
         in \<lparr>statuses = [''Playing...'', ''Playback finished.''],
              dispatches = trace st,
              final_releases = map (\<lambda>b. XTestFakeButtonEvent b False) [1, 2, 3, 4, 5, 6, 7]\<rparr>))"

definition INT_MAX :: cint where
  "INT_MAX = 2147483647"

text \<open>
  \<^verbatim>\<open>onTogglePlay\<close>: the events, speed and loop count the new player is started with,
  or \<open>None\<close> when a player is active or nothing is recorded.
\<close>

definition onTogglePlay ::
  "bool \<Rightarrow> Event list \<Rightarrow> rat \<Rightarrow> bool \<Rightarrow> cint \<Rightarrow> (Event list \<times> rat \<times> cint) option" where
  "onTogglePlay activePlayer recorded spinSpeed chkInfinite spinLoops =
     (if activePlayer then None
      else if recorded \<noteq> [] then Some (recorded, spinSpeed, if chkInfinite then INT_MAX else spinLoops)
      else None)"

text \<open>Example environment: one monitor, a clock that starts at 5000 and never lags.\<close>

abbreviation (input) steady :: "nat option \<Rightarrow> player_env" where
  "steady stop \<equiv> \<lparr>display_opens = True, clock0 = 5000, lag = (\<lambda>n. 0), stop_after = stop,
     layout_at = (\<lambda>k i. one_monitor)\<rparr>"

section \<open>Properties\<close>

subsection \<open>Combo capture dialog\<close>

text \<open>
  Claim C10: when the dialog is opened for a slot whose saved combo holds 3 keys, the
  in-progress sequence is empty once the dialog runs, so pressing Save at once commits
  the empty combo (no keys, display name "None") and the 3-key binding is lost.
\<close>

theorem open_full_combo_then_save_clears:
  assumes "length (keys target) = 3"
  shows "initial_seq target = [] \<and>
     openCaptureDialog keyname target (Save # rest) = \<lparr>keys = [], displayName = ''None''\<rparr> \<and>
     openCaptureDialog keyname target (Save # rest) \<noteq> target"
proof -
  have s: "initial_seq target = []"
    using assms by (simp add: initial_seq_def)
  have r: "openCaptureDialog keyname target (Save # rest) = \<lparr>keys = [], displayName = ''None''\<rparr>"
    by (simp add: openCaptureDialog_def s btnSave_def)
  have "keys target \<noteq> []"
    using assms by auto
  then have "openCaptureDialog keyname target (Save # rest) \<noteq> target"
    unfolding r by (cases target) auto
  with s r show ?thesis by simp
qed

theorem open_full_combo_then_save_clears_witness:
  "length (keys \<lparr>keys = [37, 50, 38], displayName = ''Ctrl + Shift + a''\<rparr>) = 3 \<and>
   initial_seq \<lparr>keys = [37, 50, 38], displayName = ''Ctrl + Shift + a''\<rparr> = [] \<and>
   openCaptureDialog (\<lambda>k. ''k'') \<lparr>keys = [37, 50, 38], displayName = ''Ctrl + Shift + a''\<rparr> [Save]
     = \<lparr>keys = [], displayName = ''None''\<rparr>"
  using open_full_combo_then_save_clears [of "\<lparr>keys = [37, 50, 38], displayName = ''Ctrl + Shift + a''\<rparr>" "\<lambda>k. ''k''" "[]"]
  by simp

subsection \<open>Global key watcher and combo handler\<close>

lemma set_set_insert: "set (set_insert c xs) = insert c (set xs)"
  by (auto simp: set_insert_def set_insort_key)

lemma set_set_erase: "set (set_erase c xs) = set xs - {c}"
  by (auto simp: set_erase_def)

lemma strict_set_insert:
  "sorted xs \<Longrightarrow> distinct xs \<Longrightarrow> sorted (set_insert c xs) \<and> distinct (set_insert c xs)"
  by (simp add: set_insert_def sorted_insort distinct_insort)

lemma strict_set_erase:
  "sorted xs \<Longrightarrow> distinct xs \<Longrightarrow> sorted (set_erase c xs) \<and> distinct (set_erase c xs)"
  by (simp add: set_erase_def sorted_wrt_filter distinct_removeAll removeAll_filter_not_eq)

lemma watcher_step_strict:
  "sorted S \<Longrightarrow> distinct S \<Longrightarrow> watcher_step S ev = (S', out) \<Longrightarrow>
     sorted S' \<and> distinct S' \<and> (\<forall>v. out = Some v \<longrightarrow> v = S')"
  by (cases "(S, ev)" rule: watcher_step.cases)
     (auto simp: Let_def strict_set_insert strict_set_erase)

text \<open>Every vector the watcher emits is strictly increasing, as a \<^verbatim>\<open>std::set\<close> yields it.\<close>

lemma watcher_loop_strict:
  "sorted S \<Longrightarrow> distinct S \<Longrightarrow> v \<in> set (watcher_loop S evs) \<Longrightarrow> sorted v \<and> distinct v"
proof (induction evs arbitrary: S)
  case Nil
  then show ?case by simp
next
  case (Cons ev evs)
  obtain S' out where st: "watcher_step S ev = (S', out)"
    by (cases "watcher_step S ev")
  from watcher_step_strict [OF Cons.prems(1,2) st]
  have s': "sorted S'" "distinct S'" and o: "\<forall>w. out = Some w \<longrightarrow> w = S'"
    by auto
  show ?case
  proof (cases out)
    case None
    with Cons.prems(3) st have "v \<in> set (watcher_loop S' evs)" by simp
    with Cons.IH [OF s'] show ?thesis by blast
  next
    case (Some w)
    with Cons.prems(3) st have "v = w \<or> v \<in> set (watcher_loop S' evs)" by auto
    with Cons.IH [OF s'] o Some s' show ?thesis by auto
  qed
qed

lemma watcher_emits_strict:
  "v \<in> set (GlobalKeyWatcher_run ready evs) \<Longrightarrow> sorted v \<and> distinct v"
  using watcher_loop_strict [of "[]" v evs]
  by (cases ready) (simp_all add: GlobalKeyWatcher_run_def)

lemma combo_fires_iff:
  "a \<in> set (currentDownSetChanged config v) \<longleftrightarrow> combo_fires (combo_of config a) v"
  by (cases a) (auto simp: currentDownSetChanged_def)

lemma sort_eq_set_eq: "sort ks = sort v \<Longrightarrow> set ks = set (v::cuint list)"
  by (metis set_sort)

lemma sort_eq_iff_set_eq:
  "distinct ks \<Longrightarrow> distinct (v::cuint list) \<Longrightarrow> sort ks = sort v \<longleftrightarrow> set ks = set v"
  by (metis set_sort distinct_sort sorted_sort sorted_distinct_set_unique)

lemma sort_mset_cong: "mset ks' = mset ks \<Longrightarrow> sort ks' = sort (ks::cuint list)"
  by (metis properties_for_sort sorted_sort mset_sort)

lemma two_keys_session:
  "watcher_loop [] [Raw XI_RawKeyPress A, Raw XI_RawKeyPress B] = [[A], set_insert B [A]]"
  by (simp add: set_insert_def Let_def)

lemma press_A_then_B_fires_B_A:
  assumes "A \<noteq> B" "keys (combo_of config a) = [B, A]"
  shows "a \<in> set (hotkey_session config [Raw XI_RawKeyPress A, Raw XI_RawKeyPress B])"
proof -
  have v: "GlobalKeyWatcher_run True [Raw XI_RawKeyPress A, Raw XI_RawKeyPress B] = [[A], set_insert B [A]]"
    unfolding GlobalKeyWatcher_run_def two_keys_session by simp
  have "mset (set_insert B [A]) = mset [B, A]"
    using assms(1) by (auto simp: set_insert_def)
  then have "sort [B, A] = sort (set_insert B [A])"
    by (metis sort_mset_cong)
  then have "combo_fires (combo_of config a) (set_insert B [A])"
    using assms(2) by (simp add: combo_fires_def)
  then have "a \<in> set (currentDownSetChanged config (set_insert B [A]))"
    by (simp add: combo_fires_iff)
  then show ?thesis
    by (simp add: hotkey_session_def v)
qed

text \<open>The keys that are down after a stream, one raw event at a time.\<close>

lemma held_Nil: "\<not> key_held [] k"
  by (simp add: key_held_def key_flags_def)

lemma held_press: "key_held (evs @ [Raw XI_RawKeyPress c]) k \<longleftrightarrow> k = c \<or> key_held evs k"
  by (auto simp: key_held_def key_flags_def)

lemma held_release: "key_held (evs @ [Raw XI_RawKeyRelease c]) k \<longleftrightarrow> k \<noteq> c \<and> key_held evs k"
  by (auto simp: key_held_def key_flags_def)

lemma held_other: "\<not> key_event ev \<Longrightarrow> key_held (evs @ [ev]) k = key_held evs k"
  by (cases ev rule: key_event.cases) (auto simp: key_held_def key_flags_def)

text \<open>The down-set the watcher holds after a stream.\<close>

lemma watcher_loop_snoc:
  "watcher_loop S (evs @ [ev]) = watcher_loop S evs @
     (case snd (watcher_step (foldl (\<lambda>S ev. fst (watcher_step S ev)) S evs) ev) of
        None \<Rightarrow> [] | Some v \<Rightarrow> [v])"
proof (induction evs arbitrary: S)
  case Nil
  show ?case by (cases "watcher_step S ev") (auto split: option.splits)
next
  case (Cons x evs)
  show ?case
    by (cases "watcher_step S x") (auto simp: Cons.IH split: option.splits)
qed

lemma downSet_is_held:
  "sorted (foldl (\<lambda>S ev. fst (watcher_step S ev)) [] evs) \<and>
   distinct (foldl (\<lambda>S ev. fst (watcher_step S ev)) [] evs) \<and>
   set (foldl (\<lambda>S ev. fst (watcher_step S ev)) [] evs) = {c. key_held evs c}"
proof (induction evs rule: rev_induct)
  case Nil
  show ?case by (simp add: held_Nil)
next
  case (snoc ev evs)
  define S where "S = foldl (\<lambda>S ev. fst (watcher_step S ev)) [] evs"
  have S: "sorted S" "distinct S" "set S = {c. key_held evs c}"
    using snoc by (simp_all add: S_def)
  have step: "foldl (\<lambda>S ev. fst (watcher_step S ev)) [] (evs @ [ev]) = fst (watcher_step S ev)"
    by (simp add: S_def)
  show ?case
    unfolding step
  proof (cases ev)
    case Foreign
    then show "sorted (fst (watcher_step S ev)) \<and> distinct (fst (watcher_step S ev)) \<and>
        set (fst (watcher_step S ev)) = {c. key_held (evs @ [ev]) c}"
      using S by (simp add: held_other)
  next
    case (Raw ty code)
    show "sorted (fst (watcher_step S ev)) \<and> distinct (fst (watcher_step S ev)) \<and>
        set (fst (watcher_step S ev)) = {c. key_held (evs @ [ev]) c}"
    proof (cases ty)
      case XI_RawKeyPress
      with Raw show ?thesis
        using S strict_set_insert [of S code] by (auto simp: Let_def set_set_insert held_press)
    next
      case XI_RawKeyRelease
      with Raw show ?thesis
        using S strict_set_erase [of S code] by (auto simp: Let_def set_set_erase held_release)
    next
      case XI_RawMotion
      with Raw show ?thesis
        using S by (simp add: held_other)
    next
      case XI_RawButtonPress
      with Raw show ?thesis
        using S by (simp add: held_other)
    next
      case XI_RawButtonRelease
      with Raw show ?thesis
        using S by (simp add: held_other)
    next
      case XI_Other
      with Raw show ?thesis
        using S by (simp add: held_other)
    qed
  qed
qed

lemma finite_held: "finite {c. key_held evs c}"
  using downSet_is_held [of evs] by (metis List.finite_set)

lemma downSet_sorted_list:
  "foldl (\<lambda>S ev. fst (watcher_step S ev)) [] evs = sorted_list_of_set {c. key_held evs c}"
  using downSet_is_held [of evs] finite_held [of evs]
  by (metis sorted_list_of_set.idem_if_sorted_distinct)

lemma watcher_emits_held:
  "key_event ev \<Longrightarrow>
     GlobalKeyWatcher_run True (evs @ [ev]) =
       GlobalKeyWatcher_run True evs @ [sorted_list_of_set {c. key_held (evs @ [ev]) c}]"
proof -
  assume k: "key_event ev"
  define S where "S = foldl (\<lambda>S ev. fst (watcher_step S ev)) [] evs"
  have "fst (watcher_step S ev) = sorted_list_of_set {c. key_held (evs @ [ev]) c}"
    using downSet_sorted_list [of "evs @ [ev]"] by (simp add: S_def)
  moreover have "snd (watcher_step S ev) = Some (fst (watcher_step S ev))"
    using k by (cases ev rule: key_event.cases) (simp_all add: Let_def)
  ultimately show ?thesis
    unfolding GlobalKeyWatcher_run_def by (simp add: watcher_loop_snoc S_def)
qed

lemma watcher_skips_other:
  "\<not> key_event ev \<Longrightarrow> GlobalKeyWatcher_run True (evs @ [ev]) = GlobalKeyWatcher_run True evs"
proof -
  assume k: "\<not> key_event ev"
  have "snd (watcher_step S ev) = None" for S
    using k by (cases "(S, ev)" rule: watcher_step.cases) simp_all
  then show ?thesis
    unfolding GlobalKeyWatcher_run_def by (simp add: watcher_loop_snoc)
qed

lemma session_key_event:
  "key_event ev \<Longrightarrow>
     hotkey_session config (evs @ [ev]) =
       hotkey_session config evs @
         currentDownSetChanged config (sorted_list_of_set {c. key_held (evs @ [ev]) c})"
  by (simp add: hotkey_session_def watcher_emits_held)

lemma session_other_event:
  "\<not> key_event ev \<Longrightarrow> hotkey_session config (evs @ [ev]) = hotkey_session config evs"
  by (simp add: hotkey_session_def watcher_skips_other)

lemma held_combo_fires:
  assumes "keys (combo_of config a) \<noteq> []" "distinct (keys (combo_of config a))"
  shows "a \<in> set (currentDownSetChanged config (sorted_list_of_set {c. key_held evs c})) \<longleftrightarrow>
     set (keys (combo_of config a)) = {c. key_held evs c}"
proof -
  have f: "finite {c. key_held evs c}" by (rule finite_held)
  have "sort (keys (combo_of config a)) = sort (sorted_list_of_set {c. key_held evs c}) \<longleftrightarrow>
      set (keys (combo_of config a)) = set (sorted_list_of_set {c. key_held evs c})"
    using assms(2) f by (intro sort_eq_iff_set_eq) simp_all
  then show ?thesis
    using assms(1) f by (simp add: combo_fires_iff combo_fires_def)
qed

text \<open>A combo that stores a key twice never fires: no key is twice in a down-set.\<close>

lemma repeated_key_combo_silent:
  assumes "\<not> distinct (keys (combo_of config a))"
  shows "a \<notin> set (currentDownSetChanged config (sorted_list_of_set {c. key_held evs c}))"
proof
  assume "a \<in> set (currentDownSetChanged config (sorted_list_of_set {c. key_held evs c}))"
  then have "sort (keys (combo_of config a)) = sort (sorted_list_of_set {c. key_held evs c})"
    by (simp add: combo_fires_iff combo_fires_def)
  then have "mset (keys (combo_of config a)) = mset (sorted_list_of_set {c. key_held evs c})"
    by (metis mset_sort)
  then have "distinct (keys (combo_of config a))"
    using finite_held [of evs] by (metis distinct_sorted_list_of_set mset_eq_imp_distinct_iff)
  with assms show False by simp
qed

text \<open>
  Claim C8: for a configured combo that is not empty, the handler invokes the combo's
  slot on a down-set \<open>v\<close> exactly when the sorted keys of the combo equal the sorted
  down-set. For a combo without repeated keys and a down-set as the watcher emits it
  (strictly increasing) that is equality of the two key sets. The trigger does not
  depend on the order in which the combo stores its keys nor on the order of the
  down-set; it does not fire on a proper subset of the combo, nor when a key outside
  the combo is down as well; and pressing \<open>A\<close> then \<open>B\<close> fires a combo saved as
  \<open>[B, A]\<close>. Over the raw events: after every raw key press or release the handler
  runs once on the keys that are down then, those whose last raw key event is a press,
  and no other raw event runs it; so at that event the slot of a combo without repeated
  keys is invoked exactly when the keys that are down are the keys of the combo, and the slot of
  a combo with a repeated key never is.
\<close>

theorem hotkey_fires_iff_sorted_sets_equal:
  assumes "keys (combo_of config a) \<noteq> []"
  shows "(a \<in> set (currentDownSetChanged config v) \<longleftrightarrow> sort (keys (combo_of config a)) = sort v) \<and>
    (sorted v \<and> distinct v \<and> distinct (keys (combo_of config a)) \<longrightarrow>
       (a \<in> set (currentDownSetChanged config v) \<longleftrightarrow> set (keys (combo_of config a)) = set v)) \<and>
    (mset (keys (combo_of config' a)) = mset (keys (combo_of config a)) \<longrightarrow>
       (a \<in> set (currentDownSetChanged config' v) \<longleftrightarrow> a \<in> set (currentDownSetChanged config v))) \<and>
    (mset v' = mset v \<longrightarrow>
       (a \<in> set (currentDownSetChanged config v') \<longleftrightarrow> a \<in> set (currentDownSetChanged config v))) \<and>
    (set v \<subset> set (keys (combo_of config a)) \<longrightarrow> a \<notin> set (currentDownSetChanged config v)) \<and>
    (set (keys (combo_of config a)) \<subset> set v \<longrightarrow> a \<notin> set (currentDownSetChanged config v)) \<and>
    (A \<noteq> B \<and> keys (combo_of config a) = [B, A] \<longrightarrow>
       a \<in> set (hotkey_session config [Raw XI_RawKeyPress A, Raw XI_RawKeyPress B])) \<and>
    (key_event ev \<longrightarrow>
       hotkey_session config (evs @ [ev]) =
         hotkey_session config evs @
           currentDownSetChanged config (sorted_list_of_set {c. key_held (evs @ [ev]) c})) \<and>
    (\<not> key_event ev \<longrightarrow> hotkey_session config (evs @ [ev]) = hotkey_session config evs) \<and>
    (distinct (keys (combo_of config a)) \<longrightarrow>
       (a \<in> set (currentDownSetChanged config (sorted_list_of_set {c. key_held (evs @ [ev]) c})) \<longleftrightarrow>
          set (keys (combo_of config a)) = {c. key_held (evs @ [ev]) c})) \<and>
    (\<not> distinct (keys (combo_of config a)) \<longrightarrow>
       a \<notin> set (currentDownSetChanged config (sorted_list_of_set {c. key_held (evs @ [ev]) c})))"
proof -
  let ?ks = "keys (combo_of config a)"
  have fires: "\<And>w. a \<in> set (currentDownSetChanged config w) \<longleftrightarrow> sort ?ks = sort w"
    using assms by (simp add: combo_fires_iff combo_fires_def)
  have exact: "sorted v \<and> distinct v \<and> distinct ?ks \<longrightarrow>
      (a \<in> set (currentDownSetChanged config v) \<longleftrightarrow> set ?ks = set v)"
    using sort_eq_iff_set_eq [of ?ks v] by (simp add: fires)
  have stored: "mset (keys (combo_of config' a)) = mset ?ks \<longrightarrow>
      (a \<in> set (currentDownSetChanged config' v) \<longleftrightarrow> a \<in> set (currentDownSetChanged config v))"
  proof
    assume m: "mset (keys (combo_of config' a)) = mset ?ks"
    then have "keys (combo_of config' a) \<noteq> []"
      using assms by auto
    moreover have "sort (keys (combo_of config' a)) = sort ?ks"
      using m by (rule sort_mset_cong)
    ultimately show "a \<in> set (currentDownSetChanged config' v) \<longleftrightarrow> a \<in> set (currentDownSetChanged config v)"
      using assms by (simp add: combo_fires_iff combo_fires_def)
  qed
  have pressed: "mset v' = mset v \<longrightarrow>
      (a \<in> set (currentDownSetChanged config v') \<longleftrightarrow> a \<in> set (currentDownSetChanged config v))"
    using sort_mset_cong [of v' v] by (auto simp: fires)
  have sub: "set v \<subset> set ?ks \<longrightarrow> a \<notin> set (currentDownSetChanged config v)"
    using sort_eq_set_eq [of ?ks v] by (auto simp: fires)
  have sup: "set ?ks \<subset> set v \<longrightarrow> a \<notin> set (currentDownSetChanged config v)"
    using sort_eq_set_eq [of ?ks v] by (auto simp: fires)
  have ex: "A \<noteq> B \<and> ?ks = [B, A] \<longrightarrow>
      a \<in> set (hotkey_session config [Raw XI_RawKeyPress A, Raw XI_RawKeyPress B])"
    using press_A_then_B_fires_B_A [of A B config a] by blast
  have key: "key_event ev \<longrightarrow>
       hotkey_session config (evs @ [ev]) =
         hotkey_session config evs @
           currentDownSetChanged config (sorted_list_of_set {c. key_held (evs @ [ev]) c})"
    using session_key_event [of ev config evs] by (rule impI)
  have other: "\<not> key_event ev \<longrightarrow> hotkey_session config (evs @ [ev]) = hotkey_session config evs"
    using session_other_event [of ev config evs] by (rule impI)
  have heldset: "distinct ?ks \<longrightarrow>
       (a \<in> set (currentDownSetChanged config (sorted_list_of_set {c. key_held (evs @ [ev]) c})) \<longleftrightarrow>
          set ?ks = {c. key_held (evs @ [ev]) c})"
    using held_combo_fires [OF assms, of "evs @ [ev]"] by (rule impI)
  have rep: "\<not> distinct ?ks \<longrightarrow>
       a \<notin> set (currentDownSetChanged config (sorted_list_of_set {c. key_held (evs @ [ev]) c}))"
    using repeated_key_combo_silent [of config a "evs @ [ev]"] by (rule impI)
  show ?thesis
    by (intro conjI fires exact stored pressed sub sup ex key other heldset rep)
qed

theorem hotkey_fires_iff_sorted_sets_equal_witness:
  "keys (combo_of \<lparr>lastDir = '''', startRecording = \<lparr>keys = [50, 37], displayName = ''Shift + Ctrl''\<rparr>,
      startPlayback = \<lparr>keys = [], displayName = ''''\<rparr>,
      stopPlayback = \<lparr>keys = [], displayName = ''''\<rparr>\<rparr> onToggleRecord) \<noteq> [] \<and>
   onToggleRecord \<in> set (currentDownSetChanged
     \<lparr>lastDir = '''', startRecording = \<lparr>keys = [50, 37], displayName = ''Shift + Ctrl''\<rparr>,
      startPlayback = \<lparr>keys = [], displayName = ''''\<rparr>,
      stopPlayback = \<lparr>keys = [], displayName = ''''\<rparr>\<rparr> [37, 50]) \<and>
   onToggleRecord \<in> set (hotkey_session
     \<lparr>lastDir = '''', startRecording = \<lparr>keys = [50, 37], displayName = ''Shift + Ctrl''\<rparr>,
      startPlayback = \<lparr>keys = [], displayName = ''''\<rparr>,
      stopPlayback = \<lparr>keys = [], displayName = ''''\<rparr>\<rparr> [Raw XI_RawKeyPress 37, Raw XI_RawKeyPress 50]) \<and>
   key_event (Raw XI_RawKeyRelease 38) \<and>
   {c. key_held [Raw XI_RawKeyPress 37, Raw XI_RawKeyPress 50, Raw XI_RawKeyPress 38,
        Raw XI_RawKeyRelease 38] c} = {37, 50} \<and>
   hotkey_session
     \<lparr>lastDir = '''', startRecording = \<lparr>keys = [50, 37], displayName = ''Shift + Ctrl''\<rparr>,
      startPlayback = \<lparr>keys = [], displayName = ''''\<rparr>,
      stopPlayback = \<lparr>keys = [], displayName = ''''\<rparr>\<rparr>
     [Raw XI_RawKeyPress 37, Raw XI_RawKeyPress 50, Raw XI_RawKeyPress 38] = [onToggleRecord] \<and>
   hotkey_session
     \<lparr>lastDir = '''', startRecording = \<lparr>keys = [50, 37], displayName = ''Shift + Ctrl''\<rparr>,
      startPlayback = \<lparr>keys = [], displayName = ''''\<rparr>,
      stopPlayback = \<lparr>keys = [], displayName = ''''\<rparr>\<rparr>
     [Raw XI_RawKeyPress 37, Raw XI_RawKeyPress 50, Raw XI_RawKeyPress 38, Raw XI_RawKeyRelease 38]
     = [onToggleRecord, onToggleRecord]"
proof -
  let ?cfg = "\<lparr>lastDir = '''', startRecording = \<lparr>keys = [50, 37], displayName = ''Shift + Ctrl''\<rparr>,
      startPlayback = \<lparr>keys = [], displayName = ''''\<rparr>,
      stopPlayback = \<lparr>keys = [], displayName = ''''\<rparr>\<rparr>"
  let ?evs = "[Raw XI_RawKeyPress 37, Raw XI_RawKeyPress 50, Raw XI_RawKeyPress 38]"
  have n: "keys (combo_of ?cfg onToggleRecord) \<noteq> []"
    by simp
  note t = hotkey_fires_iff_sorted_sets_equal [OF n, of "[37, 50]" _ _ 37 50
      "Raw XI_RawKeyRelease 38" ?evs]
  have d: "distinct (keys (combo_of ?cfg onToggleRecord))"
    by simp
  have h: "{c. key_held (?evs @ [Raw XI_RawKeyRelease 38]) c} = {37, 50}"
    by (auto simp: key_held_def key_flags_def)
  have before: "hotkey_session ?cfg ?evs = [onToggleRecord]"
    by (simp add: hotkey_session_def GlobalKeyWatcher_run_def currentDownSetChanged_def
      combo_fires_def set_insert_def set_erase_def Let_def)
  have k: "key_event (Raw XI_RawKeyRelease 38)"
    by simp
  from t d h have fired: "onToggleRecord \<in> set (currentDownSetChanged ?cfg
      (sorted_list_of_set {c. key_held (?evs @ [Raw XI_RawKeyRelease 38]) c}))"
    by simp
  have one: "currentDownSetChanged ?cfg
      (sorted_list_of_set {c. key_held (?evs @ [Raw XI_RawKeyRelease 38]) c}) = [onToggleRecord]"
    using fired by (simp add: currentDownSetChanged_def combo_fires_def split: if_splits)
  from t k have "hotkey_session ?cfg (?evs @ [Raw XI_RawKeyRelease 38]) =
      hotkey_session ?cfg ?evs @ currentDownSetChanged ?cfg
        (sorted_list_of_set {c. key_held (?evs @ [Raw XI_RawKeyRelease 38]) c})"
    by blast
  then have s: "hotkey_session ?cfg (?evs @ [Raw XI_RawKeyRelease 38]) = [onToggleRecord, onToggleRecord]"
    unfolding one before by simp
  from t n have "onToggleRecord \<in> set (currentDownSetChanged ?cfg [37, 50])"
    by simp
  moreover from t have "onToggleRecord \<in> set (hotkey_session ?cfg [Raw XI_RawKeyPress 37, Raw XI_RawKeyPress 50])"
    by simp
  ultimately show ?thesis
    using n k h s before by simp
qed

text \<open>
  Claim C9 asks that a combo fires once while the pressed set stays equal to it. The
  watcher emits \<^verbatim>\<open>currentDownSetChanged\<close> on every raw key press, also when the key is
  already in \<^verbatim>\<open>downSet\<close> and the set does not change, and the handler compares and fires
  on every emission: with the combo \<open>[38]\<close> bound to Start Recording, a press of key 38
  followed by a repeated press of the same key invokes \<^verbatim>\<open>onToggleRecord\<close> twice.
\<close>

theorem repeated_press_fires_again:
  "hotkey_session
     \<lparr>lastDir = '''', startRecording = \<lparr>keys = [38], displayName = ''a''\<rparr>,
      startPlayback = \<lparr>keys = [], displayName = ''''\<rparr>,
      stopPlayback = \<lparr>keys = [], displayName = ''''\<rparr>\<rparr>
     [Raw XI_RawKeyPress 38, Raw XI_RawKeyPress 38] = [onToggleRecord, onToggleRecord]"
  by (simp add: hotkey_session_def GlobalKeyWatcher_run_def currentDownSetChanged_def
      combo_fires_def set_insert_def Let_def)

lemma repeated_press_emits_unchanged_set:
  "code \<in> set downSet \<Longrightarrow> watcher_step downSet (Raw XI_RawKeyPress code) = (downSet, Some downSet)"
  by (simp add: set_insert_def)

subsection \<open>Doubles\<close>

lemma round_half_even_int: "round_half_even (of_int n) = n"
  unfolding round_half_even_def Let_def floor_of_int by simp

lemma int64_of_double_int:
  "- (2 ^ 63) \<le> n \<Longrightarrow> n < 2 ^ 63 \<Longrightarrow> int64_of_double (of_int n) = n"
  by (simp add: int64_of_double_def)

lemma pow2_nonpos: "e \<le> 0 \<Longrightarrow> of_int a / pow2 e = of_int (a * 2 ^ nat (- e))"
  by (cases "e = 0") (simp_all add: pow2_def)

lemma rnd53_pow53: "rnd53 (of_int (2 ^ 53)) = of_int (2 ^ 53)"
  by code_simp

lemma rnd53_neg_pow53: "rnd53 (of_int (- (2 ^ 53))) = of_int (- (2 ^ 53))"
  by code_simp

lemma sgn_abs_rat: "sgn (rat_of_int t) * of_int \<bar>t\<bar> = of_int t"
  using sgn_mult_abs [of "rat_of_int t"] by simp

lemma rnd53_small:
  assumes "t \<noteq> 0" "\<bar>t\<bar> < 2 ^ 53"
  shows "rnd53 (of_int t) = of_int t"
proof -
  define a where "a = \<bar>t\<bar>"
  have a: "0 < a" "a < 2 ^ 53" using assms by (simp_all add: a_def)
  have abs: "\<bar>rat_of_int t\<bar> = of_int a" by (simp add: a_def)
  have il: "ilog2 (of_int a) = bitlen a - 1"
    using a by (simp add: ilog2_def)
  have bl: "bitlen a \<le> 53"
    using a by (simp add: bitlen_le_iff_power)
  define e where "e = ilog2 (of_int a) - 52"
  have e0: "e \<le> 0" using bl by (simp add: e_def il)
  have q: "of_int a / pow2 e = of_int (a * 2 ^ nat (- e))"
    using e0 by (rule pow2_nonpos)
  have scaled: "rat_of_int (a * 2 ^ nat (- e)) * pow2 e = of_int a"
    using e0 by (simp add: pow2_def)
  have "rnd53 (of_int t) = sgn (of_int t) * of_int (round_half_even (of_int a / pow2 e)) * pow2 e"
    using assms(1) by (simp add: rnd53_def abs e_def Let_def)
  also have "\<dots> = sgn (of_int t) * (of_int (a * 2 ^ nat (- e)) * pow2 e)"
    unfolding q round_half_even_int by (simp add: mult.assoc)
  also have "\<dots> = sgn (rat_of_int t) * of_int a"
    unfolding scaled ..
  also have "\<dots> = of_int t"
    unfolding a_def by (rule sgn_abs_rat)
  finally show ?thesis .
qed

text \<open>Every integer of magnitude at most \<open>2 ^ 53\<close> is a double.\<close>

lemma rnd53_exact:
  assumes "\<bar>t\<bar> \<le> 2 ^ 53"
  shows "rnd53 (of_int t) = of_int t"
proof -
  consider "t = 0" | "t = 2 ^ 53" | "t = - (2 ^ 53)" | "t \<noteq> 0" "\<bar>t\<bar> < 2 ^ 53"
    using assms by linarith
  then show ?thesis
  proof cases
    case 1
    then show ?thesis by (simp add: rnd53_def)
  next
    case 2
    then show ?thesis using rnd53_pow53 by simp
  next
    case 3
    then show ?thesis using rnd53_neg_pow53 by simp
  next
    case 4
    then show ?thesis by (rule rnd53_small)
  qed
qed

lemma rnd53_INT64_MIN: "rnd53 (of_int (- (2 ^ 63))) = of_int (- (2 ^ 63))"
  by code_simp

lemma ilog2_large:
  assumes "2 ^ 53 \<le> q"
  shows "53 \<le> ilog2 q"
proof -
  have "(2::int) ^ 53 \<le> \<lfloor>q\<rfloor>"
    using assms by (simp add: le_floor_iff)
  then have "54 \<le> bitlen \<lfloor>q\<rfloor>"
    using bitlen_ge_iff_power [of 54 "\<lfloor>q\<rfloor>"] by simp
  moreover have "1 \<le> q" using assms by simp
  ultimately show ?thesis by (simp add: ilog2_def)
qed

lemma rnd53_large_int:
  assumes "2 ^ 53 \<le> \<bar>q\<bar>"
  shows "\<exists>n. rnd53 q = of_int n"
proof -
  define e where "e = ilog2 \<bar>q\<bar> - 52"
  have e: "1 \<le> e" using ilog2_large [OF assms] by (simp add: e_def)
  have q0: "q \<noteq> 0" using assms by auto
  have p: "pow2 e = of_int (2 ^ nat e)"
    using e by (simp add: pow2_def)
  define sg where "sg = (if 0 < q then (1::int) else - 1)"
  have s: "sgn q = of_int sg"
    using q0 by (simp add: sg_def sgn_if)
  have "rnd53 q = sgn q * of_int (round_half_even (\<bar>q\<bar> / pow2 e)) * pow2 e"
    using q0 by (simp add: rnd53_def e_def Let_def)
  also have "\<dots> = of_int (sg * round_half_even (\<bar>q\<bar> / pow2 e) * 2 ^ nat e)"
    unfolding p s by simp
  finally show ?thesis by blast
qed


lemma int64_of_double_range:
  "- (2 ^ 63) \<le> int64_of_double q \<and> int64_of_double q < 2 ^ 63"
  by (simp add: int64_of_double_def Let_def INT64_MIN_def)

lemma trunc_small:
  assumes "\<bar>q::rat\<bar> < 2 ^ 53"
  shows "\<bar>if 0 \<le> q then \<lfloor>q\<rfloor> else \<lceil>q\<rceil>\<bar> \<le> 2 ^ 53"
proof (cases "0 \<le> q")
  case True
  then have a: "0 \<le> \<lfloor>q\<rfloor>" by simp
  have "q < of_int (2 ^ 53)" using assms True by simp
  then have b: "\<lfloor>q\<rfloor> < 2 ^ 53" by (simp only: floor_less_iff)
  from a b have "\<bar>\<lfloor>q\<rfloor>\<bar> \<le> 2 ^ 53" by linarith
  with True show ?thesis by (simp only: if_True)
next
  case False
  then have "q \<le> of_int 0" by simp
  then have a: "\<lceil>q\<rceil> \<le> 0" by (simp only: ceiling_le_iff)
  have "of_int (- (2 ^ 53)) < q" using assms False by simp
  then have b: "- (2 ^ 53) < \<lceil>q\<rceil>" by (simp only: less_ceiling_iff)
  from a b have "\<bar>\<lceil>q\<rceil>\<bar> \<le> 2 ^ 53" by linarith
  with False show ?thesis by (simp only: if_False)
qed

text \<open>The conversion of a double to a 64-bit integer gives an integer that is a double.\<close>

lemma int64_of_double_exact:
  assumes "rnd53 q = q"
  shows "int64_double (int64_of_double q)"
proof -
  define n where "n = (if 0 \<le> q then \<lfloor>q\<rfloor> else \<lceil>q\<rceil>)"
  have v: "int64_of_double q = (if - (2 ^ 63) \<le> n \<and> n < 2 ^ 63 then n else INT64_MIN)"
    by (simp add: int64_of_double_def n_def Let_def)
  have r: "- (2 ^ 63) \<le> int64_of_double q \<and> int64_of_double q < 2 ^ 63"
    by (rule int64_of_double_range)
  have "rnd53 (of_int (int64_of_double q)) = of_int (int64_of_double q)"
  proof (cases "- (2 ^ 63) \<le> n \<and> n < 2 ^ 63")
    case False
    then have "int64_of_double q = INT64_MIN"
      unfolding v by (rule if_not_P)
    then show ?thesis
      using rnd53_INT64_MIN by (simp add: INT64_MIN_def)
  next
    case True
    show ?thesis
    proof (cases "\<bar>q\<bar> < 2 ^ 53")
      case True
      then have "\<bar>n\<bar> \<le> 2 ^ 53"
        unfolding n_def by (rule trunc_small)
      then have "rnd53 (of_int n) = of_int n" by (rule rnd53_exact)
      with \<open>- (2 ^ 63) \<le> n \<and> n < 2 ^ 63\<close> show ?thesis by (simp add: v)
    next
      case False
      then have "2 ^ 53 \<le> \<bar>q\<bar>" by simp
      then obtain k where "rnd53 q = of_int k"
        using rnd53_large_int by blast
      with assms have k: "q = of_int k" by simp
      then have "n = k" by (simp add: n_def)
      with k assms have "rnd53 (of_int n) = of_int n" by simp
      with True show ?thesis by (simp add: v)
    qed
  qed
  with r show ?thesis
    by (simp add: int64_double_def double_of_int64_def)
qed

lemma int64_double_small:
  assumes "\<bar>t\<bar> \<le> 2 ^ 53"
  shows "int64_double t"
proof -
  have "(2::int) ^ 53 < 2 ^ 63"
    by simp
  with assms have "- (2 ^ 63) \<le> t" "t < 2 ^ 63"
    by linarith+
  then show ?thesis
    using assms by (simp add: int64_double_def double_of_int64_def rnd53_exact)
qed

lemma int64_double_roundtrip:
  "int64_double t \<Longrightarrow> int64_of_double (double_of_int64 t) = t"
  by (simp add: int64_double_def int64_of_double_int)

subsection \<open>Macro files\<close>

lemma toInt_of_int:
  "- (2 ^ 31) \<le> k \<Longrightarrow> k < 2 ^ 31 \<Longrightarrow> toInt (JDouble (of_int k)) = word_of_int k"
  by simp

lemma toInt_JInt: "toInt (JInt n) = n"
proof -
  have "- (2 ^ 31) \<le> sint n" "sint n < 2 ^ 31"
    using sint_ge [of n] sint_lt [of n] by simp_all
  then have "toInt (JDouble (of_int (sint n))) = word_of_int (sint n)"
    by (rule toInt_of_int)
  then show ?thesis
    by (simp add: JInt_def)
qed

lemma load_saved_file:
  "loadRecq (snd (saveRecq True evs)) = map (\<lambda>e. load_record_object (save_record e)) evs"
  by (simp add: saveRecq_def loadRecq_def obj_set_def obj_value_def Let_def)

lemma load_record_array_eq: "load_record_array = load_record_object"
  by (rule ext) (simp add: load_record_array_def load_record_object_def)

text \<open>Loading never drops a record: the log is as long as the array.\<close>

lemma loadRecq_keeps_every_record:
  "length (loadRecq (Some (JArray records))) = length records"
  by (simp add: loadRecq_def)

lemma double_of_large: "double_of_int64 9007199254740993 = 9007199254740992"
  by code_simp

text \<open>
  Claim C6: a legacy document, the bare array of event records, loads to the same event
  log as a wrapped document whose \<^verbatim>\<open>events\<close> member is that array, whatever its other
  members are.
\<close>

theorem legacy_array_loads_like_wrapped:
  assumes "obj_value rootobj ''events'' = JArray records"
  shows "loadRecq (Some (JArray records)) = loadRecq (Some (JObject rootobj))"
  using assms by (simp add: loadRecq_def load_record_array_eq)

theorem legacy_array_loads_like_wrapped_witness:
  "obj_value [(''events'', JArray [JObject [(''t'', JDouble 40), (''type'', JString ''mm''),
        (''x'', JDouble 10), (''y'', JDouble 20)]]), (''format'', JString ''recq-v1'')] ''events''
     = JArray [JObject [(''t'', JDouble 40), (''type'', JString ''mm''),
        (''x'', JDouble 10), (''y'', JDouble 20)]] \<and>
   loadRecq (Some (JArray [JObject [(''t'', JDouble 40), (''type'', JString ''mm''),
        (''x'', JDouble 10), (''y'', JDouble 20)]]))
     = loadRecq (Some (JObject [(''events'', JArray [JObject [(''t'', JDouble 40), (''type'', JString ''mm''),
        (''x'', JDouble 10), (''y'', JDouble 20)]]), (''format'', JString ''recq-v1'')])) \<and>
   loadRecq (Some (JArray [JObject [(''t'', JDouble 40), (''type'', JString ''mm''),
        (''x'', JDouble 10), (''y'', JDouble 20)]]))
     = [Event0\<lparr>ms_since_start := 40, ev_x := 10, ev_y := 20\<rparr>]"
proof -
  have h: "obj_value [(''events'', JArray [JObject [(''t'', JDouble 40), (''type'', JString ''mm''),
        (''x'', JDouble 10), (''y'', JDouble 20)]]), (''format'', JString ''recq-v1'')] ''events''
     = JArray [JObject [(''t'', JDouble 40), (''type'', JString ''mm''),
        (''x'', JDouble 10), (''y'', JDouble 20)]]"
    by (simp add: obj_value_def)
  have v: "loadRecq (Some (JArray [JObject [(''t'', JDouble 40), (''type'', JString ''mm''),
        (''x'', JDouble 10), (''y'', JDouble 20)]]))
     = [Event0\<lparr>ms_since_start := 40, ev_x := 10, ev_y := 20\<rparr>]"
    by (simp add: loadRecq_def load_record_array_def obj_value_def Event0_def int64_of_double_def Let_def)
  from h legacy_array_loads_like_wrapped [OF h] v show ?thesis
    by blast
qed

text \<open>
  Claim C7 asks that a record whose \<^verbatim>\<open>type\<close> is none of "mm", "mb", "key" is
  dropped. \<^verbatim>\<open>loadRecq\<close> has no branch for such a record and pushes the event after
  the chain of tests all the same: the record becomes an event with the timestamp of the
  record and the value-initialised fields, a mouse move to (0, 0).
\<close>

theorem unknown_type_record_is_loaded:
  "loadRecq (Some (JObject [(''events'', JArray [JObject [(''t'', JDouble 5), (''type'', JString ''zz'')]]),
      (''format'', JString ''recq-v1'')]))
   = [\<lparr>type = MouseMove, ms_since_start = 5, ev_x = 0, ev_y = 0, button = 0, pressed = False,
       keycode = 0, monitor = [], relx = 0, rely = 0\<rparr>]"
  by (simp add: loadRecq_def load_record_object_def obj_value_def Event0_def int64_of_double_def Let_def)

subsection \<open>Recorder\<close>

lemma pairs_append: "press_release_pairs fs \<Longrightarrow> press_release_pairs (fs @ gs) = press_release_pairs gs"
  by (induction fs rule: press_release_pairs.induct) simp_all

lemma pairs_even: "press_release_pairs fs \<Longrightarrow> even (length fs)"
  by (induction fs rule: press_release_pairs.induct) simp_all

lemma pairs_snoc_False: "press_release_pairs (fs @ [False]) \<Longrightarrow> press_release_pairs (fs @ [True]) = False"
  by (induction fs rule: press_release_pairs.induct) simp_all

lemma pairs_open: "press_release_pairs fs \<Longrightarrow> press_release_pairs (fs @ [True, False])"
  by (simp add: pairs_append)

lemma button_flags_append:
  "button_flags b (evs @ evs') = button_flags b evs @ button_flags b evs'"
  by (simp add: button_flags_def)

lemma button_flags_Nil: "button_flags b [] = []"
  by (simp add: button_flags_def)

lemma button_flags_single:
  "button_flags b [e] = (if type e = MouseButton \<and> button e = b then [pressed e] else [])"
  by (simp add: button_flags_def)

lemma mouse_event_fields:
  "type (mouse_event ty t scr x y) = ty"
  "ms_since_start (mouse_event ty t scr x y) = t"
  "ev_x (mouse_event ty t scr x y) = x"
  "ev_y (mouse_event ty t scr x y) = y"
  "button (mouse_event ty t scr x y) = 0"
  "pressed (mouse_event ty t scr x y) = False"
  "keycode (mouse_event ty t scr x y) = 0"
  by (simp_all add: mouse_event_def Let_def Event0_def)

lemma set_hash_insert: "set (hash_insert b bs) = insert b (set bs)"
  by (auto simp: hash_insert_def)

lemma set_hash_erase: "set (hash_erase b bs) = set bs - {b}"
  by (auto simp: hash_erase_def)

lemma distinct_hash_insert: "distinct bs \<Longrightarrow> distinct (hash_insert b bs)"
  by (simp add: hash_insert_def)

lemma distinct_hash_erase: "distinct bs \<Longrightarrow> distinct (hash_erase b bs)"
  by (simp add: hash_erase_def distinct_removeAll)

text \<open>The flags of button \<open>b\<close> after one turn of the loop.\<close>

lemma step_flags_press:
  "button_flags b (events (recorder_step start st (Raw XI_RawButtonPress d, r))) =
     button_flags b (events st) @ (if d = b then [True] else [])"
  by (simp add: Let_def button_flags_append button_flags_single mouse_event_fields)

lemma step_flags_release:
  "button_flags b (events (recorder_step start st (Raw XI_RawButtonRelease d, r))) =
     button_flags b (events st) @ (if d = b then [False] else [])"
  by (simp add: Let_def button_flags_append button_flags_single mouse_event_fields)

lemma step_flags_other:
  assumes "\<forall>d. ev \<noteq> Raw XI_RawButtonPress d" "\<forall>d. ev \<noteq> Raw XI_RawButtonRelease d"
  shows "button_flags b (events (recorder_step start st (ev, r))) = button_flags b (events st) \<and>
     downButtons (recorder_step start st (ev, r)) = downButtons st"
proof (cases ev)
  case Foreign
  then show ?thesis by simp
next
  case (Raw ty d)
  with assms show ?thesis
    by (cases ty)
       (simp_all add: Let_def button_flags_append button_flags_single mouse_event_fields Event0_def)
qed

lemma step_down_press:
  "downButtons (recorder_step start st (Raw XI_RawButtonPress d, r)) = hash_insert d (downButtons st)"
  by (simp add: Let_def)

lemma step_down_release:
  "downButtons (recorder_step start st (Raw XI_RawButtonRelease d, r)) = hash_erase d (downButtons st)"
  by (simp add: Let_def)

lemma half_open_step:
  assumes "half_open st" "presses_alternate (downButtons st) (ev # rest)"
  shows "half_open (recorder_step start st (ev, r)) \<and>
     presses_alternate (downButtons (recorder_step start st (ev, r))) rest"
proof -
  have d: "distinct (downButtons st)"
    and p: "\<And>b. press_release_pairs
       (button_flags b (events st) @ (if b \<in> set (downButtons st) then [False] else []))"
    using assms(1) by (simp_all add: half_open_def)
  consider (press) b where "ev = Raw XI_RawButtonPress b"
    | (release) b where "ev = Raw XI_RawButtonRelease b"
    | (other) "\<forall>d. ev \<noteq> Raw XI_RawButtonPress d" "\<forall>d. ev \<noteq> Raw XI_RawButtonRelease d"
    by blast
  then show ?thesis
  proof cases
    case press
    with assms(2) have nb: "b \<notin> set (downButtons st)"
      and rest: "presses_alternate (hash_insert b (downButtons st)) rest"
      by simp_all
    have "press_release_pairs (button_flags c (events st) @
        (if b = c then [True] else []) @
        (if c \<in> set (hash_insert b (downButtons st)) then [False] else []))" for c
      using p [of c] nb by (auto simp: set_hash_insert pairs_append)
    then show ?thesis
      unfolding press half_open_def step_flags_press step_down_press
      using d rest by (simp add: distinct_hash_insert)
  next
    case release
    with assms(2) have hb: "b \<in> set (downButtons st)"
      and rest: "presses_alternate (hash_erase b (downButtons st)) rest"
      by simp_all
    have "press_release_pairs (button_flags c (events st) @
        (if b = c then [False] else []) @
        (if c \<in> set (hash_erase b (downButtons st)) then [False] else []))" for c
      using p [of c] hb by (auto simp: set_hash_erase)
    then show ?thesis
      unfolding release half_open_def step_flags_release step_down_release
      using d rest by (simp add: distinct_hash_erase)
  next
    case other
    have rest: "presses_alternate (downButtons st) rest"
      using assms(2) other by (cases "(downButtons st, ev # rest)" rule: presses_alternate.cases) auto
    show ?thesis
      unfolding half_open_def using step_flags_other [OF other] d p rest by simp
  qed
qed

lemma half_open_loop:
  "half_open st \<Longrightarrow> presses_alternate (downButtons st) (map fst stream) \<Longrightarrow>
     half_open (foldl (recorder_step start) st stream)"
proof (induction stream arbitrary: st)
  case Nil
  then show ?case by simp
next
  case (Cons n stream)
  obtain ev r where n: "n = (ev, r)" by (cases n)
  from half_open_step [of st ev "map fst stream" start r] Cons.prems n
  have "half_open (recorder_step start st (ev, r))"
    and "presses_alternate (downButtons (recorder_step start st (ev, r))) (map fst stream)"
    by simp_all
  with Cons.IH show ?case by (simp add: n)
qed

lemma half_open_capture:
  "presses_alternate [] (map fst stream) \<Longrightarrow> half_open (capture_loop start stream)"
  unfolding capture_loop_def
  by (rule half_open_loop)
     (simp_all add: half_open_def recorder_init_def button_flags_Nil)

text \<open>The synthesised releases: one release per held button.\<close>

lemma release_flags:
  "button_flags b (map (\<lambda>c. (mouse_event MouseButton t scr x y)\<lparr>button := c, pressed := False\<rparr>) bs) =
     replicate (count_list bs b) False"
  by (induction bs) (simp_all add: button_flags_def mouse_event_fields)

lemma count_list_distinct: "distinct bs \<Longrightarrow> count_list bs b = (if b \<in> set bs then 1 else 0)"
  by (induction bs) auto

lemma synthesized_flags:
  assumes "distinct (downButtons st)" "mset (iteration (downButtons st)) = mset (downButtons st)"
  shows "button_flags b (synthesized iteration start st stopped) =
     (if b \<in> set (downButtons st) then [False] else [])"
proof -
  have dist: "distinct (iteration (downButtons st))"
    using assms by (metis mset_eq_imp_distinct_iff)
  have sets: "set (iteration (downButtons st)) = set (downButtons st)"
    using assms(2) by (metis mset_eq_setD)
  show ?thesis
  proof (cases "downButtons st = []")
    case True
    then show ?thesis by (simp add: synthesized_def button_flags_Nil)
  next
    case False
    then show ?thesis
      by (simp add: synthesized_def Let_def release_flags count_list_distinct [OF dist] sets)
  qed
qed

lemma synthesized_events:
  "e \<in> set (synthesized iteration start st stopped) \<Longrightarrow>
     type e = MouseButton \<and> \<not> pressed e \<and> ms_since_start e = now stopped - start \<and>
     ev_x e = pointer_x stopped \<and> ev_y e = pointer_y stopped"
  by (auto simp: synthesized_def Let_def mouse_event_fields split: if_splits)

lemma synthesized_buttons:
  "mset (iteration (downButtons st)) = mset (downButtons st) \<Longrightarrow>
     mset (map button (synthesized iteration start st stopped)) = mset (downButtons st)"
proof (cases "downButtons st = []")
  case True
  then show ?thesis by (simp add: synthesized_def)
next
  case False
  assume m: "mset (iteration (downButtons st)) = mset (downButtons st)"
  have "map button (synthesized iteration start st stopped) = iteration (downButtons st)"
    using False by (simp add: synthesized_def Let_def comp_def)
  with m show ?thesis by simp
qed

lemma flags_of_logged_button:
  "b \<in> set (map button (filter (\<lambda>e. type e = MouseButton) evs)) \<Longrightarrow> button_flags b evs \<noteq> []"
  by (auto simp: button_flags_def filter_empty_conv)

lemma paired_run:
  assumes "presses_alternate [] (map fst stream)"
    and "mset (iteration (downButtons (capture_loop start stream))) = mset (downButtons (capture_loop start stream))"
  shows "press_release_pairs (button_flags b
     (events (capture_loop start stream) @ synthesized iteration start (capture_loop start stream) stopped))"
proof -
  let ?st = "capture_loop start stream"
  have h: "half_open ?st"
    using assms(1) by (rule half_open_capture)
  then have d: "distinct (downButtons ?st)"
    by (simp add: half_open_def)
  from h have "press_release_pairs
       (button_flags b (events ?st) @ (if b \<in> set (downButtons ?st) then [False] else []))"
    by (simp add: half_open_def)
  moreover have "button_flags b (synthesized iteration start ?st stopped) =
       (if b \<in> set (downButtons ?st) then [False] else [])"
    using d assms(2) by (rule synthesized_flags)
  ultimately show ?thesis
    by (simp add: button_flags_append)
qed

lemma capture_loop_snoc:
  "capture_loop start (stream @ [n]) = recorder_step start (capture_loop start stream) n"
  by (simp add: capture_loop_def)

text \<open>A button is in the held set exactly when its last event in the log is a press.\<close>

lemma held_iff_last_press:
  "b \<in> set (downButtons (capture_loop start stream)) \<longleftrightarrow>
     button_flags b (events (capture_loop start stream)) \<noteq> [] \<and>
     last (button_flags b (events (capture_loop start stream)))"
proof (induction stream rule: rev_induct)
  case Nil
  then show ?case
    by (simp add: capture_loop_def recorder_init_def button_flags_Nil)
next
  case (snoc n stream)
  obtain ev r where n: "n = (ev, r)" by (cases n)
  consider (press) d where "ev = Raw XI_RawButtonPress d"
    | (release) d where "ev = Raw XI_RawButtonRelease d"
    | (other) "\<forall>d. ev \<noteq> Raw XI_RawButtonPress d" "\<forall>d. ev \<noteq> Raw XI_RawButtonRelease d"
    by blast
  then show ?case
  proof cases
    case press
    then show ?thesis
      unfolding capture_loop_snoc n press step_flags_press step_down_press
      using snoc.IH by (auto simp: set_hash_insert)
  next
    case release
    then show ?thesis
      unfolding capture_loop_snoc n release step_flags_release step_down_release
      using snoc.IH by (auto simp: set_hash_erase)
  next
    case other
    show ?thesis
      unfolding capture_loop_snoc n using step_flags_other [OF other] snoc.IH by simp
  qed
qed

lemma pressed_button_logged:
  "Raw XI_RawButtonPress b \<in> fst ` set stream \<Longrightarrow>
     button_flags b (events (capture_loop start stream)) \<noteq> []"
proof (induction stream rule: rev_induct)
  case Nil
  then show ?case by simp
next
  case (snoc n stream)
  obtain ev r where n: "n = (ev, r)" by (cases n)
  from snoc.prems consider "ev = Raw XI_RawButtonPress b"
    | "Raw XI_RawButtonPress b \<in> fst ` set stream"
    by (auto simp: n)
  then have hyp: "ev = Raw XI_RawButtonPress b \<or> button_flags b (events (capture_loop start stream)) \<noteq> []"
    using snoc.IH by cases simp_all
  consider (press) d where "ev = Raw XI_RawButtonPress d"
    | (release) d where "ev = Raw XI_RawButtonRelease d"
    | (other) "\<forall>d. ev \<noteq> Raw XI_RawButtonPress d" "\<forall>d. ev \<noteq> Raw XI_RawButtonRelease d"
    by blast
  then show ?case
  proof cases
    case press
    with hyp show ?thesis
      unfolding capture_loop_snoc n press step_flags_press by auto
  next
    case release
    with hyp show ?thesis
      unfolding capture_loop_snoc n release step_flags_release by auto
  next
    case other
    with hyp show ?thesis
      unfolding capture_loop_snoc n
      using step_flags_other [OF other, of b start "capture_loop start stream" r]
      by auto
  qed
qed

text \<open>
  Claim C1, amended: for every raw input stream in which, for each button id, press and
  release notifications alternate from a press (no press of a button that is held, no
  release of one that is not), the log of a completed capture run holds, for every
  button id with an event in it and so for every button pressed in the stream, a
  positive even number of MouseButton events, presses and releases alternating from a
  press. The log is the events of the loop followed by one synthesised release for each
  button still in the held set (the buttons whose last event is a press), each stamped
  with the stop time and the pointer position read at the stop.
\<close>

theorem capture_pairs_buttons:
  assumes "presses_alternate [] (map fst stream)"
    and "\<And>bs. mset (iteration bs) = mset bs"
    and "RecorderThread_run Ready iteration start stream stopped = Recorded evs"
  shows "buttons_paired evs \<and>
    (\<forall>b. Raw XI_RawButtonPress b \<in> fst ` set stream \<longrightarrow>
       button_flags b evs \<noteq> [] \<and> even (length (button_flags b evs)) \<and>
       press_release_pairs (button_flags b evs)) \<and>
    evs = events (capture_loop start stream) @
          synthesized iteration start (capture_loop start stream) stopped \<and>
    mset (map button (synthesized iteration start (capture_loop start stream) stopped)) =
      mset (downButtons (capture_loop start stream)) \<and>
    (\<forall>b. b \<in> set (downButtons (capture_loop start stream)) \<longleftrightarrow>
       button_flags b (events (capture_loop start stream)) \<noteq> [] \<and>
       last (button_flags b (events (capture_loop start stream)))) \<and>
    (\<forall>e \<in> set (synthesized iteration start (capture_loop start stream) stopped).
       type e = MouseButton \<and> \<not> pressed e \<and> ms_since_start e = now stopped - start \<and>
       ev_x e = pointer_x stopped \<and> ev_y e = pointer_y stopped)"
proof -
  let ?st = "capture_loop start stream"
  let ?syn = "synthesized iteration start ?st stopped"
  have evs: "evs = events ?st @ ?syn"
    using assms(3) by (simp add: RecorderThread_run_def Let_def)
  have pairs: "press_release_pairs (button_flags b evs)" for b
    unfolding evs using assms(1) assms(2) [of "downButtons ?st"] by (rule paired_run)
  have paired: "buttons_paired evs"
    unfolding buttons_paired_def
    using pairs pairs_even flags_of_logged_button by blast
  have pressed: "\<forall>b. Raw XI_RawButtonPress b \<in> fst ` set stream \<longrightarrow>
       button_flags b evs \<noteq> [] \<and> even (length (button_flags b evs)) \<and>
       press_release_pairs (button_flags b evs)"
  proof (intro allI impI)
    fix b
    assume "Raw XI_RawButtonPress b \<in> fst ` set stream"
    then have "button_flags b (events ?st) \<noteq> []"
      by (rule pressed_button_logged)
    then have "button_flags b evs \<noteq> []"
      by (simp add: evs button_flags_append)
    with pairs [of b] pairs_even [of "button_flags b evs"]
    show "button_flags b evs \<noteq> [] \<and> even (length (button_flags b evs)) \<and>
       press_release_pairs (button_flags b evs)"
      by simp
  qed
  have buttons: "mset (map button ?syn) = mset (downButtons ?st)"
    using assms(2) [of "downButtons ?st"] by (rule synthesized_buttons)
  have held: "\<forall>b. b \<in> set (downButtons ?st) \<longleftrightarrow>
       button_flags b (events ?st) \<noteq> [] \<and> last (button_flags b (events ?st))"
    using held_iff_last_press by blast
  have stamped: "\<forall>e \<in> set ?syn.
       type e = MouseButton \<and> \<not> pressed e \<and> ms_since_start e = now stopped - start \<and>
       ev_x e = pointer_x stopped \<and> ev_y e = pointer_y stopped"
    using synthesized_events by blast
  from paired pressed evs buttons held stamped show ?thesis
    by blast
qed

lemma capture_example:
  "RecorderThread_run Ready (\<lambda>bs. bs) 1000
     [(Raw XI_RawButtonPress 1, read_at 1005 10 20), (Raw XI_RawMotion 0, read_at 1006 2000 20),
      (Raw XI_RawButtonPress 3, read_at 1007 10 20), (Raw XI_RawButtonRelease 1, read_at 1008 10 20)]
     (read_at 1100 30 40) =
   Recorded
     [Event0\<lparr>type := MouseButton, ms_since_start := 5, ev_x := 10, ev_y := 20, button := 1,
        pressed := True, monitor := ''DP-1'', relx := 10, rely := 20\<rparr>,
      Event0\<lparr>type := MouseMove, ms_since_start := 6, ev_x := 2000, ev_y := 20, relx := 2000, rely := 20\<rparr>,
      Event0\<lparr>type := MouseButton, ms_since_start := 7, ev_x := 10, ev_y := 20, button := 3,
        pressed := True, monitor := ''DP-1'', relx := 10, rely := 20\<rparr>,
      Event0\<lparr>type := MouseButton, ms_since_start := 8, ev_x := 10, ev_y := 20, button := 1,
        pressed := False, monitor := ''DP-1'', relx := 10, rely := 20\<rparr>,
      Event0\<lparr>type := MouseButton, ms_since_start := 100, ev_x := 30, ev_y := 40, button := 3,
        pressed := False, monitor := ''DP-1'', relx := 30, rely := 40\<rparr>]"
  by code_simp

theorem capture_pairs_buttons_witness:
  "presses_alternate [] (map fst
     [(Raw XI_RawButtonPress 1, read_at 1005 10 20), (Raw XI_RawMotion 0, read_at 1006 2000 20),
      (Raw XI_RawButtonPress 3, read_at 1007 10 20), (Raw XI_RawButtonRelease 1, read_at 1008 10 20)]) \<and>
   buttons_paired
     [Event0\<lparr>type := MouseButton, ms_since_start := 5, ev_x := 10, ev_y := 20, button := 1,
        pressed := True, monitor := ''DP-1'', relx := 10, rely := 20\<rparr>,
      Event0\<lparr>type := MouseMove, ms_since_start := 6, ev_x := 2000, ev_y := 20, relx := 2000, rely := 20\<rparr>,
      Event0\<lparr>type := MouseButton, ms_since_start := 7, ev_x := 10, ev_y := 20, button := 3,
        pressed := True, monitor := ''DP-1'', relx := 10, rely := 20\<rparr>,
      Event0\<lparr>type := MouseButton, ms_since_start := 8, ev_x := 10, ev_y := 20, button := 1,
        pressed := False, monitor := ''DP-1'', relx := 10, rely := 20\<rparr>,
      Event0\<lparr>type := MouseButton, ms_since_start := 100, ev_x := 30, ev_y := 40, button := 3,
        pressed := False, monitor := ''DP-1'', relx := 30, rely := 40\<rparr>]"
proof -
  have a: "presses_alternate [] (map fst
     [(Raw XI_RawButtonPress 1, read_at 1005 10 20), (Raw XI_RawMotion 0, read_at 1006 2000 20),
      (Raw XI_RawButtonPress 3, read_at 1007 10 20), (Raw XI_RawButtonRelease 1, read_at 1008 10 20)])"
    by (simp add: hash_insert_def hash_erase_def)
  have p: "\<And>bs::cint list. mset ((\<lambda>bs. bs) bs) = mset bs"
    by simp
  from capture_pairs_buttons [OF a p capture_example] a show ?thesis
    by blast
qed

text \<open>
  Claim C1 as stated fails: two presses of button 1 with no release between them (two
  devices under one master pointer) satisfy its hypothesis, the held set holds button 1
  once, and the log ends with a single synthesised release: three events for button 1.
\<close>

lemma double_press_example:
  "RecorderThread_run Ready (\<lambda>bs. bs) 1000
     [(Raw XI_RawButtonPress 1, read_at 1005 10 20), (Raw XI_RawButtonPress 1, read_at 1007 10 20)]
     (read_at 1100 30 40) =
   Recorded
     [Event0\<lparr>type := MouseButton, ms_since_start := 5, ev_x := 10, ev_y := 20, button := 1,
        pressed := True, monitor := ''DP-1'', relx := 10, rely := 20\<rparr>,
      Event0\<lparr>type := MouseButton, ms_since_start := 7, ev_x := 10, ev_y := 20, button := 1,
        pressed := True, monitor := ''DP-1'', relx := 10, rely := 20\<rparr>,
      Event0\<lparr>type := MouseButton, ms_since_start := 100, ev_x := 30, ev_y := 40, button := 1,
        pressed := False, monitor := ''DP-1'', relx := 30, rely := 40\<rparr>]"
  by code_simp

theorem double_press_log_is_unpaired:
  "releases_matched [] (map fst
     [(Raw XI_RawButtonPress 1, read_at 1005 10 20), (Raw XI_RawButtonPress 1, read_at 1007 10 20)]) \<and>
   RecorderThread_run Ready (\<lambda>bs. bs) 1000
     [(Raw XI_RawButtonPress 1, read_at 1005 10 20), (Raw XI_RawButtonPress 1, read_at 1007 10 20)]
     (read_at 1100 30 40) =
   Recorded
     [Event0\<lparr>type := MouseButton, ms_since_start := 5, ev_x := 10, ev_y := 20, button := 1,
        pressed := True, monitor := ''DP-1'', relx := 10, rely := 20\<rparr>,
      Event0\<lparr>type := MouseButton, ms_since_start := 7, ev_x := 10, ev_y := 20, button := 1,
        pressed := True, monitor := ''DP-1'', relx := 10, rely := 20\<rparr>,
      Event0\<lparr>type := MouseButton, ms_since_start := 100, ev_x := 30, ev_y := 40, button := 1,
        pressed := False, monitor := ''DP-1'', relx := 30, rely := 40\<rparr>] \<and>
   length (button_flags 1
     [Event0\<lparr>type := MouseButton, ms_since_start := 5, ev_x := 10, ev_y := 20, button := 1,
        pressed := True, monitor := ''DP-1'', relx := 10, rely := 20\<rparr>,
      Event0\<lparr>type := MouseButton, ms_since_start := 7, ev_x := 10, ev_y := 20, button := 1,
        pressed := True, monitor := ''DP-1'', relx := 10, rely := 20\<rparr>,
      Event0\<lparr>type := MouseButton, ms_since_start := 100, ev_x := 30, ev_y := 40, button := 1,
        pressed := False, monitor := ''DP-1'', relx := 30, rely := 40\<rparr>]) = 3 \<and>
   \<not> buttons_paired
     [Event0\<lparr>type := MouseButton, ms_since_start := 5, ev_x := 10, ev_y := 20, button := 1,
        pressed := True, monitor := ''DP-1'', relx := 10, rely := 20\<rparr>,
      Event0\<lparr>type := MouseButton, ms_since_start := 7, ev_x := 10, ev_y := 20, button := 1,
        pressed := True, monitor := ''DP-1'', relx := 10, rely := 20\<rparr>,
      Event0\<lparr>type := MouseButton, ms_since_start := 100, ev_x := 30, ev_y := 40, button := 1,
        pressed := False, monitor := ''DP-1'', relx := 30, rely := 40\<rparr>]"
proof -
  have m: "releases_matched [] (map fst
     [(Raw XI_RawButtonPress 1, read_at 1005 10 20), (Raw XI_RawButtonPress 1, read_at 1007 10 20)])"
    by simp
  have f: "button_flags 1
     [Event0\<lparr>type := MouseButton, ms_since_start := 5, ev_x := 10, ev_y := 20, button := 1,
        pressed := True, monitor := ''DP-1'', relx := 10, rely := 20\<rparr>,
      Event0\<lparr>type := MouseButton, ms_since_start := 7, ev_x := 10, ev_y := 20, button := 1,
        pressed := True, monitor := ''DP-1'', relx := 10, rely := 20\<rparr>,
      Event0\<lparr>type := MouseButton, ms_since_start := 100, ev_x := 30, ev_y := 40, button := 1,
        pressed := False, monitor := ''DP-1'', relx := 30, rely := 40\<rparr>] = [True, True, False]"
    by (simp add: button_flags_def Event0_def)
  have u: "\<not> buttons_paired
     [Event0\<lparr>type := MouseButton, ms_since_start := 5, ev_x := 10, ev_y := 20, button := 1,
        pressed := True, monitor := ''DP-1'', relx := 10, rely := 20\<rparr>,
      Event0\<lparr>type := MouseButton, ms_since_start := 7, ev_x := 10, ev_y := 20, button := 1,
        pressed := True, monitor := ''DP-1'', relx := 10, rely := 20\<rparr>,
      Event0\<lparr>type := MouseButton, ms_since_start := 100, ev_x := 30, ev_y := 40, button := 1,
        pressed := False, monitor := ''DP-1'', relx := 30, rely := 40\<rparr>]"
    by (simp add: buttons_paired_def button_flags_def Event0_def)
  from m double_press_example f u show ?thesis
    by simp
qed

subsection \<open>Player\<close>

lemma read_running_simps:
  "fst (read_running env st) = sees_running env (reads st)"
  "trace (snd (read_running env st)) = trace st"
  "reads (snd (read_running env st)) = Suc (reads st)"
  by (simp_all add: read_running_def)

lemma now_ms_simps:
  "fst (now_ms env st) = clk (snd (now_ms env st))"
  "trace (snd (now_ms env st)) = trace st"
  "reads (snd (now_ms env st)) = reads st"
  by (simp_all add: now_ms_def Let_def)

lemma nanosleep_simps:
  "trace (nanosleep env d st) = trace st"
  "reads (nanosleep env d st) = reads st"
  "clk (nanosleep env d st) = clk st + d + int (lag env (ticks st))"
  by (simp_all add: nanosleep_def)

lemma sleeps_simps:
  "trace (sleeps env cs st) = trace st"
  "reads (sleeps env cs st) = reads st"
  by (induction env cs st rule: sleeps.induct) (simp_all add: nanosleep_simps)

text \<open>When the wait returns, the clock has reached the target.\<close>

lemma sleep_until_simps:
  "trace (sleep_until env tgt st) = trace st"
  "reads (sleep_until env tgt st) = reads st"
  "tgt \<le> clk (sleep_until env tgt st)"
  by (simp_all add: sleep_until_def Let_def split_beta nanosleep_simps now_ms_simps)

text \<open>One turn of the inner loop, by what the read of \<^verbatim>\<open>running\<close> sees.\<close>

lemma play_events_stopped:
  "\<not> sees_running env (reads st) \<Longrightarrow>
     play_events env speed k start i (e # rest) st = snd (read_running env st)"
  by (simp add: split_beta read_running_simps)

lemma play_events_running:
  "sees_running env (reads st) \<Longrightarrow>
     play_events env speed k start i (e # rest) st =
       play_events env speed k start (Suc i) rest
         (sleeps env (dispatch (layout_at env k i) e (case rest of [] \<Rightarrow> None | nx # _ \<Rightarrow> Some nx))
            ((sleep_until env (add64 start (sched_offset (ms_since_start e) speed)) (snd (read_running env st)))
               \<lparr>trace := trace st @
                  [\<lparr>pass = k, index = i, event = e, pass_start = start,
                    target_at = add64 start (sched_offset (ms_since_start e) speed),
                    fired_at = clk (sleep_until env (add64 start (sched_offset (ms_since_start e) speed))
                                 (snd (read_running env st))),
                    calls = dispatch (layout_at env k i) e
                              (case rest of [] \<Rightarrow> None | nx # _ \<Rightarrow> Some nx)\<rparr>]\<rparr>))"
  by (simp add: split_beta Let_def read_running_simps sleep_until_simps)

lemma play_loops_stopped:
  "\<not> sees_running env (reads st) \<Longrightarrow>
     play_loops env speed evs (Suc remaining) k st = snd (read_running env st)"
  by (simp add: split_beta read_running_simps)

lemma play_loops_running:
  "sees_running env (reads st) \<Longrightarrow>
     play_loops env speed evs (Suc remaining) k st =
       play_loops env speed evs remaining (Suc k)
         (play_events env speed k (fst (now_ms env (snd (read_running env st)))) 0 evs
            (snd (now_ms env (snd (read_running env st)))))"
  by (simp add: split_beta read_running_simps)



text \<open>All events of a pass are dispatched while every read sees \<^verbatim>\<open>running\<close> true.\<close>

lemma play_events_full:
  assumes "\<forall>r. reads st \<le> r \<and> r < reads st + length rest \<longrightarrow> sees_running env r"
  shows "map event (trace (play_events env speed k start i rest st)) = map event (trace st) @ rest \<and>
     map (\<lambda>d. (pass d, index d)) (trace (play_events env speed k start i rest st)) =
       map (\<lambda>d. (pass d, index d)) (trace st) @ map (\<lambda>j. (k, j)) [i ..< i + length rest] \<and>
     reads (play_events env speed k start i rest st) = reads st + length rest"
  using assms
proof (induction rest arbitrary: i st)
  case Nil
  then show ?case by simp
next
  case (Cons e rest)
  have run: "sees_running env (reads st)"
    using Cons.prems by simp
  define tgt where "tgt = add64 start (sched_offset (ms_since_start e) speed)"
  define st3 where "st3 = sleep_until env tgt (snd (read_running env st))"
  define cs where "cs = dispatch (layout_at env k i) e (case rest of [] \<Rightarrow> None | nx # _ \<Rightarrow> Some nx)"
  define d where "d = \<lparr>pass = k, index = i, event = e, pass_start = start, target_at = tgt,
      fired_at = clk st3, calls = cs\<rparr>"
  define st5 where "st5 = sleeps env cs (st3\<lparr>trace := trace st @ [d]\<rparr>)"
  have step: "play_events env speed k start i (e # rest) st =
      play_events env speed k start (Suc i) rest st5"
    by (simp only: play_events_running [OF run] st5_def d_def cs_def st3_def tgt_def)
  have r: "reads st5 = Suc (reads st)"
    by (simp add: st5_def st3_def sleeps_simps sleep_until_simps read_running_simps)
  have t: "trace st5 = trace st @ [d]"
    by (simp add: st5_def sleeps_simps)
  have "\<forall>r. reads st5 \<le> r \<and> r < reads st5 + length rest \<longrightarrow> sees_running env r"
    using Cons.prems by (simp add: r)
  note ih = Cons.IH [OF this, of "Suc i"]
  have u: "[i ..< i + length (e # rest)] = i # [Suc i ..< Suc i + length rest]"
    by (subst upt_rec) simp
  have m: "map event (trace st5) = map event (trace st) @ [e]"
    and m2: "map (\<lambda>d. (pass d, index d)) (trace st5) = map (\<lambda>d. (pass d, index d)) (trace st) @ [(k, i)]"
    by (simp_all add: t d_def)
  show ?case
    unfolding step u using ih unfolding m m2 r by simp
qed

lemma play_loops_full:
  assumes "\<forall>r. reads st \<le> r \<and> r < reads st + n * Suc (length evs) \<longrightarrow> sees_running env r"
  shows "map event (trace (play_loops env speed evs n k st)) =
       map event (trace st) @ concat (replicate n evs) \<and>
     map (\<lambda>d. (pass d, index d)) (trace (play_loops env speed evs n k st)) =
       map (\<lambda>d. (pass d, index d)) (trace st) @
       concat (map (\<lambda>p. map (\<lambda>j. (p, j)) [0 ..< length evs]) [k ..< k + n]) \<and>
     reads (play_loops env speed evs n k st) = reads st + n * Suc (length evs)"
  using assms
proof (induction n arbitrary: k st)
  case 0
  then show ?case by simp
next
  case (Suc n)
  have run: "sees_running env (reads st)"
    using Suc.prems by simp
  define start where "start = fst (now_ms env (snd (read_running env st)))"
  define st2 where "st2 = snd (now_ms env (snd (read_running env st)))"
  define st3 where "st3 = play_events env speed k start 0 evs st2"
  have step: "play_loops env speed evs (Suc n) k st = play_loops env speed evs n (Suc k) st3"
    by (simp only: play_loops_running [OF run] st3_def st2_def start_def)
  have r2: "reads st2 = Suc (reads st)" and t2: "trace st2 = trace st"
    by (simp_all add: st2_def now_ms_simps read_running_simps)
  have "\<forall>r. reads st2 \<le> r \<and> r < reads st2 + length evs \<longrightarrow> sees_running env r"
    using Suc.prems by (simp add: r2)
  from play_events_full [OF this, of speed k start 0]
  have e3: "map event (trace st3) = map event (trace st) @ evs"
    and p3: "map (\<lambda>d. (pass d, index d)) (trace st3) =
       map (\<lambda>d. (pass d, index d)) (trace st) @ map (\<lambda>j. (k, j)) [0 ..< length evs]"
    and r3: "reads st3 = Suc (reads st) + length evs"
    by (simp_all add: r2 t2 st3_def)
  have "\<forall>r. reads st3 \<le> r \<and> r < reads st3 + n * Suc (length evs) \<longrightarrow> sees_running env r"
    using Suc.prems by (simp add: r3)
  note ih = Suc.IH [OF this, of "Suc k"]
  have u: "[k ..< k + Suc n] = k # [Suc k ..< Suc k + n]"
    by (subst upt_rec) simp
  show ?case
    unfolding step u using ih unfolding e3 p3 r3 by simp
qed

text \<open>Whatever the reads see, the dispatched events are an initial part of the passes.\<close>

lemma play_events_prefix:
  "\<exists>j \<le> length rest. map event (trace (play_events env speed k start i rest st)) =
     map event (trace st) @ take j rest"
proof (induction rest arbitrary: i st)
  case Nil
  then show ?case by simp
next
  case (Cons e rest)
  show ?case
  proof (cases "sees_running env (reads st)")
    case False
    have "map event (trace (play_events env speed k start i (e # rest) st)) =
        map event (trace st) @ take 0 (e # rest)"
      by (simp only: play_events_stopped [OF False] read_running_simps) simp
    then show ?thesis by blast
  next
    case True
    define tgt where "tgt = add64 start (sched_offset (ms_since_start e) speed)"
    define st3 where "st3 = sleep_until env tgt (snd (read_running env st))"
    define cs where "cs = dispatch (layout_at env k i) e (case rest of [] \<Rightarrow> None | nx # _ \<Rightarrow> Some nx)"
    define d where "d = \<lparr>pass = k, index = i, event = e, pass_start = start, target_at = tgt,
        fired_at = clk st3, calls = cs\<rparr>"
    define st5 where "st5 = sleeps env cs (st3\<lparr>trace := trace st @ [d]\<rparr>)"
    have step: "play_events env speed k start i (e # rest) st =
        play_events env speed k start (Suc i) rest st5"
      by (simp only: play_events_running [OF True] st5_def d_def cs_def st3_def tgt_def)
    have t: "trace st5 = trace st @ [d]"
      by (simp add: st5_def sleeps_simps)
    from Cons.IH [of "Suc i" st5] obtain j where j: "j \<le> length rest"
      and eq: "map event (trace (play_events env speed k start (Suc i) rest st5)) =
        map event (trace st5) @ take j rest"
      by blast
    have "map event (trace (play_events env speed k start i (e # rest) st)) =
        map event (trace st) @ take (Suc j) (e # rest)"
      unfolding step eq t by (simp add: d_def)
    moreover have "Suc j \<le> length (e # rest)"
      using j by simp
    ultimately show ?thesis by blast
  qed
qed

lemma sees_running_mono: "\<not> sees_running env r \<Longrightarrow> r \<le> r' \<Longrightarrow> \<not> sees_running env r'"
  by (auto simp: sees_running_def split: option.splits)

text \<open>A pass either dispatches all its events or ends on a read that sees the stop.\<close>

lemma play_events_prefix_stop:
  "\<exists>j \<le> length rest.
     map event (trace (play_events env speed k start i rest st)) = map event (trace st) @ take j rest \<and>
     (j = length rest \<or> \<not> sees_running env (reads (play_events env speed k start i rest st)))"
proof (induction rest arbitrary: i st)
  case Nil
  then show ?case by simp
next
  case (Cons e rest)
  show ?case
  proof (cases "sees_running env (reads st)")
    case False
    have "map event (trace (play_events env speed k start i (e # rest) st)) =
        map event (trace st) @ take 0 (e # rest)"
      by (simp only: play_events_stopped [OF False] read_running_simps) simp
    moreover have "\<not> sees_running env (reads (play_events env speed k start i (e # rest) st))"
      unfolding play_events_stopped [OF False] read_running_simps
      using False by (rule sees_running_mono) simp
    ultimately show ?thesis by blast
  next
    case True
    define tgt where "tgt = add64 start (sched_offset (ms_since_start e) speed)"
    define st3 where "st3 = sleep_until env tgt (snd (read_running env st))"
    define cs where "cs = dispatch (layout_at env k i) e (case rest of [] \<Rightarrow> None | nx # _ \<Rightarrow> Some nx)"
    define d where "d = \<lparr>pass = k, index = i, event = e, pass_start = start, target_at = tgt,
        fired_at = clk st3, calls = cs\<rparr>"
    define st5 where "st5 = sleeps env cs (st3\<lparr>trace := trace st @ [d]\<rparr>)"
    have step: "play_events env speed k start i (e # rest) st =
        play_events env speed k start (Suc i) rest st5"
      by (simp only: play_events_running [OF True] st5_def d_def cs_def st3_def tgt_def)
    have t: "trace st5 = trace st @ [d]"
      by (simp add: st5_def sleeps_simps)
    from Cons.IH [of "Suc i" st5] obtain j where j: "j \<le> length rest"
      and eq: "map event (trace (play_events env speed k start (Suc i) rest st5)) =
        map event (trace st5) @ take j rest"
      and fin: "j = length rest \<or> \<not> sees_running env (reads (play_events env speed k start (Suc i) rest st5))"
      by blast
    have "map event (trace (play_events env speed k start i (e # rest) st)) =
        map event (trace st) @ take (Suc j) (e # rest)"
      unfolding step eq t by (simp add: d_def)
    moreover have "Suc j \<le> length (e # rest)"
      using j by simp
    moreover have "Suc j = length (e # rest) \<or>
        \<not> sees_running env (reads (play_events env speed k start i (e # rest) st))"
      unfolding step using fin by auto
    ultimately show ?thesis by blast
  qed
qed

lemma play_loops_after_stop:
  assumes "\<not> sees_running env (reads st)"
  shows "trace (play_loops env speed evs n k st) = trace st"
proof (cases n)
  case 0
  then show ?thesis by simp
next
  case (Suc n')
  show ?thesis
    unfolding Suc play_loops_stopped [OF assms] read_running_simps ..
qed

lemma take_append_full: "take (length xs + j) (xs @ ys) = xs @ take j ys"
  by simp

lemma play_loops_prefix:
  "\<exists>j. map event (trace (play_loops env speed evs n k st)) =
     map event (trace st) @ take j (concat (replicate n evs))"
proof (induction n arbitrary: k st)
  case 0
  then show ?case by simp
next
  case (Suc n)
  show ?case
  proof (cases "sees_running env (reads st)")
    case False
    have "map event (trace (play_loops env speed evs (Suc n) k st)) =
        map event (trace st) @ take 0 (concat (replicate (Suc n) evs))"
      by (simp only: play_loops_stopped [OF False] read_running_simps) simp
    then show ?thesis by blast
  next
    case True
    define start where "start = fst (now_ms env (snd (read_running env st)))"
    define st2 where "st2 = snd (now_ms env (snd (read_running env st)))"
    define st3 where "st3 = play_events env speed k start 0 evs st2"
    have step: "play_loops env speed evs (Suc n) k st = play_loops env speed evs n (Suc k) st3"
      by (simp only: play_loops_running [OF True] st3_def st2_def start_def)
    have t2: "trace st2 = trace st"
      by (simp add: st2_def now_ms_simps read_running_simps)
    from play_events_prefix_stop [of evs env speed k start 0 st2]
    obtain j1 where j1: "j1 \<le> length evs"
      and e3: "map event (trace st3) = map event (trace st) @ take j1 evs"
      and fin: "j1 = length evs \<or> \<not> sees_running env (reads st3)"
      unfolding st3_def [symmetric] t2 by blast
    show ?thesis
    proof (cases "j1 = length evs")
      case True
      from Suc.IH [of "Suc k" st3] obtain j2 where
        "map event (trace (play_loops env speed evs n (Suc k) st3)) =
           map event (trace st3) @ take j2 (concat (replicate n evs))"
        by blast
      then have "map event (trace (play_loops env speed evs (Suc n) k st)) =
          map event (trace st) @ take (length evs + j2) (concat (replicate (Suc n) evs))"
        unfolding step e3 True by simp
      then show ?thesis by blast
    next
      case False
      with fin have "\<not> sees_running env (reads st3)" by simp
      then have "trace (play_loops env speed evs n (Suc k) st3) = trace st3"
        by (rule play_loops_after_stop)
      then have "map event (trace (play_loops env speed evs (Suc n) k st)) =
          map event (trace st) @ take j1 (concat (replicate (Suc n) evs))"
        unfolding step using e3 j1 by simp
      then show ?thesis by blast
    qed
  qed
qed

text \<open>Each dispatch takes a read of \<^verbatim>\<open>running\<close> that still sees it true.\<close>

lemma play_events_bound:
  assumes "stop_after env = Some m"
  shows "length (trace (play_events env speed k start i rest st)) + min m (reads st)
           \<le> length (trace st) + min m (reads (play_events env speed k start i rest st))"
proof (induction rest arbitrary: i st)
  case Nil
  then show ?case by simp
next
  case (Cons e rest)
  show ?case
  proof (cases "sees_running env (reads st)")
    case False
    show ?thesis
      unfolding play_events_stopped [OF False] read_running_simps by simp
  next
    case True
    then have lt: "reads st < m"
      using assms by (simp add: sees_running_def)
    define tgt where "tgt = add64 start (sched_offset (ms_since_start e) speed)"
    define st3 where "st3 = sleep_until env tgt (snd (read_running env st))"
    define cs where "cs = dispatch (layout_at env k i) e (case rest of [] \<Rightarrow> None | nx # _ \<Rightarrow> Some nx)"
    define d where "d = \<lparr>pass = k, index = i, event = e, pass_start = start, target_at = tgt,
        fired_at = clk st3, calls = cs\<rparr>"
    define st5 where "st5 = sleeps env cs (st3\<lparr>trace := trace st @ [d]\<rparr>)"
    have step: "play_events env speed k start i (e # rest) st =
        play_events env speed k start (Suc i) rest st5"
      by (simp only: play_events_running [OF True] st5_def d_def cs_def st3_def tgt_def)
    have r: "reads st5 = Suc (reads st)"
      by (simp add: st5_def st3_def sleeps_simps sleep_until_simps read_running_simps)
    have t: "length (trace st5) = Suc (length (trace st))"
      by (simp add: st5_def sleeps_simps)
    from Cons.IH [of "Suc i" st5] show ?thesis
      unfolding step r t using lt by simp
  qed
qed

lemma play_loops_bound:
  assumes "stop_after env = Some m"
  shows "length (trace (play_loops env speed evs n k st)) + min m (reads st)
           \<le> length (trace st) + min m (reads (play_loops env speed evs n k st))"
proof (induction n arbitrary: k st)
  case 0
  then show ?case by simp
next
  case (Suc n)
  show ?case
  proof (cases "sees_running env (reads st)")
    case False
    show ?thesis
      unfolding play_loops_stopped [OF False] read_running_simps by simp
  next
    case True
    then have lt: "reads st < m"
      using assms by (simp add: sees_running_def)
    define start where "start = fst (now_ms env (snd (read_running env st)))"
    define st2 where "st2 = snd (now_ms env (snd (read_running env st)))"
    define st3 where "st3 = play_events env speed k start 0 evs st2"
    have step: "play_loops env speed evs (Suc n) k st = play_loops env speed evs n (Suc k) st3"
      by (simp only: play_loops_running [OF True] st3_def st2_def start_def)
    have r2: "reads st2 = Suc (reads st)" and t2: "trace st2 = trace st"
      by (simp_all add: st2_def now_ms_simps read_running_simps)
    from play_events_bound [OF assms, of speed k start 0 evs st2]
    have b3: "length (trace st3) + min m (Suc (reads st)) \<le> length (trace st) + min m (reads st3)"
      by (simp add: st3_def r2 t2)
    from Suc.IH [of "Suc k" st3] b3 lt show ?thesis
      unfolding step by simp
  qed
qed

text \<open>While the reads of the first \<open>j\<close> passes see no stop, those passes are played in full.\<close>

lemma play_loops_progress:
  assumes "j \<le> n"
    and "\<forall>r. reads st \<le> r \<and> r < reads st + j * Suc (length evs) \<longrightarrow> sees_running env r"
  shows "length (trace st) + j * length evs \<le> length (trace (play_loops env speed evs n k st))"
  using assms
proof (induction j arbitrary: n k st)
  case 0
  from play_loops_prefix [of env speed evs n k st] obtain i where
    "map event (trace (play_loops env speed evs n k st)) =
       map event (trace st) @ take i (concat (replicate n evs))"
    by blast
  then have "length (map event (trace (play_loops env speed evs n k st))) =
      length (map event (trace st) @ take i (concat (replicate n evs)))"
    by simp
  then show ?case by simp
next
  case (Suc j)
  then obtain n' where n: "n = Suc n'" and jn: "j \<le> n'"
    by (cases n) simp_all
  have run: "sees_running env (reads st)"
    using Suc.prems(2) by simp
  define start where "start = fst (now_ms env (snd (read_running env st)))"
  define st2 where "st2 = snd (now_ms env (snd (read_running env st)))"
  define st3 where "st3 = play_events env speed k start 0 evs st2"
  have step: "play_loops env speed evs (Suc n') k st = play_loops env speed evs n' (Suc k) st3"
    by (simp only: play_loops_running [OF run] st3_def st2_def start_def)
  have r2: "reads st2 = Suc (reads st)" and t2: "trace st2 = trace st"
    by (simp_all add: st2_def now_ms_simps read_running_simps)
  have "\<forall>r. reads st2 \<le> r \<and> r < reads st2 + length evs \<longrightarrow> sees_running env r"
    using Suc.prems(2) by (simp add: r2)
  from play_events_full [OF this, of speed k start 0]
  have e3: "map event (trace st3) = map event (trace st) @ evs"
    and r3: "reads st3 = Suc (reads st) + length evs"
    by (simp_all add: r2 t2 st3_def)
  from e3 have "length (map event (trace st3)) = length (map event (trace st) @ evs)"
    by simp
  then have l3: "length (trace st3) = length (trace st) + length evs"
    by simp
  have "\<forall>r. reads st3 \<le> r \<and> r < reads st3 + j * Suc (length evs) \<longrightarrow> sees_running env r"
    using Suc.prems(2) by (simp add: r3)
  from Suc.IH [OF jn this, of "Suc k"] show ?case
    unfolding n step l3 by simp
qed

lemma sint_INT_MAX: "nat (sint INT_MAX) = 2147483647"
  by (simp add: INT_MAX_def)

lemma sint_3: "nat (sint (3 :: cint)) = 3"
  by simp

lemma tap_shaping_no_motion: "XTestFakeMotionEvent x y \<notin> set (tap_shaping e nxt)"
  by (simp add: tap_shaping_def Let_def)

lemma run_finishes:
  "evs \<noteq> [] \<Longrightarrow> display_opens env \<Longrightarrow>
     statuses (PlayerThread_run env evs speed loops) = [''Playing...'', ''Playback finished.'']"
  by (simp add: PlayerThread_run_def Let_def)

lemma run_dispatches:
  "evs \<noteq> [] \<Longrightarrow> display_opens env \<Longrightarrow>
     dispatches (PlayerThread_run env evs speed loops) =
       trace (play_loops env speed evs (nat (sint loops)) 0
         \<lparr>clk = clock0 env, ticks = 0, reads = 0, trace = []\<rparr>)"
  by (simp add: PlayerThread_run_def Let_def)

lemma run_dispatches_cases:
  "dispatches (PlayerThread_run env evs speed loops) = [] \<or>
   dispatches (PlayerThread_run env evs speed loops) =
       trace (play_loops env speed evs (nat (sint loops)) 0
         \<lparr>clk = clock0 env, ticks = 0, reads = 0, trace = []\<rparr>)"
  by (simp add: PlayerThread_run_def Let_def)

text \<open>The calls of every dispatched event are those of \<open>dispatch\<close> on that event.\<close>

lemma play_events_calls:
  assumes "\<forall>d \<in> set (trace st). \<exists>nxt. calls d = dispatch (layout_at env (pass d) (index d)) (event d) nxt"
  shows "\<forall>d \<in> set (trace (play_events env speed k start i rest st)).
      \<exists>nxt. calls d = dispatch (layout_at env (pass d) (index d)) (event d) nxt"
  using assms
proof (induction rest arbitrary: i st)
  case Nil
  then show ?case unfolding play_events.simps .
next
  case (Cons e rest)
  show ?case
  proof (cases "sees_running env (reads st)")
    case False
    show ?thesis
      unfolding play_events_stopped [OF False] read_running_simps by (rule Cons.prems)
  next
    case True
    define tgt where "tgt = add64 start (sched_offset (ms_since_start e) speed)"
    define st3 where "st3 = sleep_until env tgt (snd (read_running env st))"
    define cs where "cs = dispatch (layout_at env k i) e (case rest of [] \<Rightarrow> None | nx # _ \<Rightarrow> Some nx)"
    define d where "d = \<lparr>pass = k, index = i, event = e, pass_start = start, target_at = tgt,
        fired_at = clk st3, calls = cs\<rparr>"
    define st5 where "st5 = sleeps env cs (st3\<lparr>trace := trace st @ [d]\<rparr>)"
    have step: "play_events env speed k start i (e # rest) st =
        play_events env speed k start (Suc i) rest st5"
      by (simp only: play_events_running [OF True] st5_def d_def cs_def st3_def tgt_def)
    have "\<exists>nxt. calls d = dispatch (layout_at env (pass d) (index d)) (event d) nxt"
      by (auto simp: d_def cs_def)
    moreover have "trace st5 = trace st @ [d]"
      by (simp add: st5_def sleeps_simps)
    ultimately have "\<forall>d \<in> set (trace st5).
        \<exists>nxt. calls d = dispatch (layout_at env (pass d) (index d)) (event d) nxt"
      using Cons.prems by auto
    then show ?thesis
      unfolding step by (rule Cons.IH)
  qed
qed

lemma play_loops_calls:
  assumes "\<forall>d \<in> set (trace st). \<exists>nxt. calls d = dispatch (layout_at env (pass d) (index d)) (event d) nxt"
  shows "\<forall>d \<in> set (trace (play_loops env speed evs remaining k st)).
      \<exists>nxt. calls d = dispatch (layout_at env (pass d) (index d)) (event d) nxt"
  using assms
proof (induction remaining arbitrary: k st)
  case 0
  then show ?case unfolding play_loops.simps .
next
  case (Suc remaining)
  show ?case
  proof (cases "sees_running env (reads st)")
    case False
    show ?thesis
      unfolding play_loops_stopped [OF False] read_running_simps by (rule Suc.prems)
  next
    case True
    define st2 where "st2 = snd (now_ms env (snd (read_running env st)))"
    have "trace st2 = trace st"
      by (simp add: st2_def now_ms_simps read_running_simps)
    then have "\<forall>d \<in> set (trace st2).
        \<exists>nxt. calls d = dispatch (layout_at env (pass d) (index d)) (event d) nxt"
      using Suc.prems by (simp only:)
    then show ?thesis
      unfolding play_loops_running [OF True] st2_def [symmetric]
      by (intro Suc.IH play_events_calls)
  qed
qed

lemma run_calls:
  "\<forall>d \<in> set (dispatches (PlayerThread_run env evs speed loops)).
      \<exists>nxt. calls d = dispatch (layout_at env (pass d) (index d)) (event d) nxt"
proof -
  have "\<forall>d \<in> set (trace (play_loops env speed evs (nat (sint loops)) 0
        \<lparr>clk = clock0 env, ticks = 0, reads = 0, trace = []\<rparr>)).
      \<exists>nxt. calls d = dispatch (layout_at env (pass d) (index d)) (event d) nxt"
    by (rule play_loops_calls) simp
  with run_dispatches_cases [of env evs speed loops] show ?thesis
    by (elim disjE) (simp_all only: list.set ball_empty)
qed

lemma dispatch_move_resolved:
  assumes "monitor e \<noteq> [] \<and> name (findMonitorByName scr (monitor e)) \<noteq> []" "type e = MouseMove"
  shows "dispatch scr e nxt =
         [XTestFakeMotionEvent (mon_x (findMonitorByName scr (monitor e)) + relx e)
            (mon_y (findMonitorByName scr (monitor e)) + rely e)]"
  using assms by (simp add: dispatch_def Let_def)

lemma dispatch_move_recorded:
  assumes "monitor e = [] \<or> name (findMonitorByName scr (monitor e)) = []" "type e = MouseMove"
  shows "dispatch scr e nxt = [XTestFakeMotionEvent (ev_x e) (ev_y e)]"
proof (cases "monitor e = []")
  case True
  with assms(2) show ?thesis by (simp add: dispatch_def Let_def)
next
  case False
  with assms have "name (findMonitorByName scr (monitor e)) = []" by simp
  with False assms(2) show ?thesis by (simp add: dispatch_def Let_def)
qed

lemma dispatch_button_resolved:
  assumes "monitor e \<noteq> [] \<and> name (findMonitorByName scr (monitor e)) \<noteq> []" "type e = MouseButton"
  shows "dispatch scr e nxt =
         XTestFakeMotionEvent (mon_x (findMonitorByName scr (monitor e)) + relx e)
            (mon_y (findMonitorByName scr (monitor e)) + rely e) #
         XTestFakeButtonEvent (button e) (pressed e) # tap_shaping e nxt"
  using assms by (simp add: dispatch_def Let_def)

lemma dispatch_button_unresolved:
  assumes "monitor e = [] \<or> name (findMonitorByName scr (monitor e)) = []" "type e = MouseButton"
  shows "dispatch scr e nxt = XTestFakeButtonEvent (button e) (pressed e) # tap_shaping e nxt"
proof (cases "monitor e = []")
  case True
  with assms(2) show ?thesis by (simp add: dispatch_def Let_def)
next
  case False
  with assms have "name (findMonitorByName scr (monitor e)) = []" by simp
  with False assms(2) show ?thesis by (simp add: dispatch_def Let_def)
qed

lemma dispatch_key:
  "type e = Key \<Longrightarrow> dispatch scr e nxt = [XTestFakeKeyEvent (keycode e) (pressed e)]"
  by (simp add: dispatch_def)

lemma dispatch_not_empty: "dispatch scr e nxt \<noteq> []"
  by (cases "type e") (simp_all add: dispatch_def Let_def)

text \<open>
  Claim C2, amended: when the event carries a monitor name that is not empty and
  \<^verbatim>\<open>findMonitorByName\<close> resolves it in the current layout, a mouse move injects one
  motion to the monitor's origin plus the stored relative offset, and a button event
  injects a motion to that position and then the button event. Otherwise a mouse move
  injects one motion to the recorded absolute coordinates, and a button event injects
  the button event with no motion at all: its recorded coordinates are not used. A key
  event injects its key event. In every case the event is dispatched; these are the calls of
  every event a run dispatches, under the layout of that moment; and a run on a log
  that is not empty, with a display that opens, ends with "Playback finished.".
\<close>

theorem dispatch_positions:
  "(monitor e \<noteq> [] \<and> name (findMonitorByName scr (monitor e)) \<noteq> [] \<longrightarrow>
      (type e = MouseMove \<longrightarrow> dispatch scr e nxt =
         [XTestFakeMotionEvent (mon_x (findMonitorByName scr (monitor e)) + relx e)
            (mon_y (findMonitorByName scr (monitor e)) + rely e)]) \<and>
      (type e = MouseButton \<longrightarrow> dispatch scr e nxt =
         XTestFakeMotionEvent (mon_x (findMonitorByName scr (monitor e)) + relx e)
            (mon_y (findMonitorByName scr (monitor e)) + rely e) #
         XTestFakeButtonEvent (button e) (pressed e) # tap_shaping e nxt)) \<and>
   (monitor e = [] \<or> name (findMonitorByName scr (monitor e)) = [] \<longrightarrow>
      (type e = MouseMove \<longrightarrow> dispatch scr e nxt = [XTestFakeMotionEvent (ev_x e) (ev_y e)]) \<and>
      (type e = MouseButton \<longrightarrow>
         dispatch scr e nxt = XTestFakeButtonEvent (button e) (pressed e) # tap_shaping e nxt \<and>
         (\<forall>x y. XTestFakeMotionEvent x y \<notin> set (dispatch scr e nxt)))) \<and>
   (type e = Key \<longrightarrow> dispatch scr e nxt = [XTestFakeKeyEvent (keycode e) (pressed e)]) \<and>
   dispatch scr e nxt \<noteq> [] \<and>
   (\<forall>d \<in> set (dispatches (PlayerThread_run env evs speed loops)).
      \<exists>nx. calls d = dispatch (layout_at env (pass d) (index d)) (event d) nx) \<and>
   (evs \<noteq> [] \<and> display_opens env \<longrightarrow>
      statuses (PlayerThread_run env evs speed loops) = [''Playing...'', ''Playback finished.''])"
proof (intro conjI impI allI)
  assume "monitor e \<noteq> [] \<and> name (findMonitorByName scr (monitor e)) \<noteq> []" "type e = MouseMove"
  then show "dispatch scr e nxt =
         [XTestFakeMotionEvent (mon_x (findMonitorByName scr (monitor e)) + relx e)
            (mon_y (findMonitorByName scr (monitor e)) + rely e)]"
    by (rule dispatch_move_resolved)
next
  assume "monitor e \<noteq> [] \<and> name (findMonitorByName scr (monitor e)) \<noteq> []" "type e = MouseButton"
  then show "dispatch scr e nxt =
         XTestFakeMotionEvent (mon_x (findMonitorByName scr (monitor e)) + relx e)
            (mon_y (findMonitorByName scr (monitor e)) + rely e) #
         XTestFakeButtonEvent (button e) (pressed e) # tap_shaping e nxt"
    by (rule dispatch_button_resolved)
next
  assume "monitor e = [] \<or> name (findMonitorByName scr (monitor e)) = []" "type e = MouseMove"
  then show "dispatch scr e nxt = [XTestFakeMotionEvent (ev_x e) (ev_y e)]"
    by (rule dispatch_move_recorded)
next
  assume u: "monitor e = [] \<or> name (findMonitorByName scr (monitor e)) = []" "type e = MouseButton"
  then show "dispatch scr e nxt = XTestFakeButtonEvent (button e) (pressed e) # tap_shaping e nxt"
    by (rule dispatch_button_unresolved)
  fix x y
  show "XTestFakeMotionEvent x y \<notin> set (dispatch scr e nxt)"
    unfolding dispatch_button_unresolved [OF u] by (simp add: tap_shaping_no_motion)
next
  assume "type e = Key"
  then show "dispatch scr e nxt = [XTestFakeKeyEvent (keycode e) (pressed e)]"
    by (rule dispatch_key)
next
  show "dispatch scr e nxt \<noteq> []"
    by (rule dispatch_not_empty)
next
  show "\<forall>d \<in> set (dispatches (PlayerThread_run env evs speed loops)).
      \<exists>nx. calls d = dispatch (layout_at env (pass d) (index d)) (event d) nx"
    by (rule run_calls)
next
  assume "evs \<noteq> [] \<and> display_opens env"
  then show "statuses (PlayerThread_run env evs speed loops) = [''Playing...'', ''Playback finished.'']"
    using run_finishes [of evs env speed loops] by simp
qed

theorem dispatch_positions_witness:
  "dispatch
     (Some [Some \<lparr>output_name = ''DP-1'', connected = True,
        crtc = Some \<lparr>crtc_x = 1920, crtc_y = 0, crtc_width = 1920, crtc_height = 1080\<rparr>\<rparr>])
     (Event0\<lparr>type := MouseButton, ms_since_start := 100, ev_x := 100, ev_y := 200, button := 1,
        pressed := False, monitor := ''DP-1'', relx := 100, rely := 200\<rparr>) None
   = [XTestFakeMotionEvent 2020 200, XTestFakeButtonEvent 1 False] \<and>
   dispatch
     (Some [Some \<lparr>output_name = ''DP-1'', connected = True,
        crtc = Some \<lparr>crtc_x = 1920, crtc_y = 0, crtc_width = 1920, crtc_height = 1080\<rparr>\<rparr>])
     (Event0\<lparr>type := MouseMove, ms_since_start := 100, ev_x := 100, ev_y := 200,
        monitor := ''HDMI-2'', relx := 100, rely := 200\<rparr>) None
   = [XTestFakeMotionEvent 100 200]"
  using dispatch_positions [of
     "Event0\<lparr>type := MouseButton, ms_since_start := 100, ev_x := 100, ev_y := 200, button := 1,
        pressed := False, monitor := ''DP-1'', relx := 100, rely := 200\<rparr>"
     "Some [Some \<lparr>output_name = ''DP-1'', connected = True,
        crtc = Some \<lparr>crtc_x = 1920, crtc_y = 0, crtc_width = 1920, crtc_height = 1080\<rparr>\<rparr>]" None]
    dispatch_positions [of
     "Event0\<lparr>type := MouseMove, ms_since_start := 100, ev_x := 100, ev_y := 200,
        monitor := ''HDMI-2'', relx := 100, rely := 200\<rparr>"
     "Some [Some \<lparr>output_name = ''DP-1'', connected = True,
        crtc = Some \<lparr>crtc_x = 1920, crtc_y = 0, crtc_width = 1920, crtc_height = 1080\<rparr>\<rparr>]" None]
  by (simp add: Event0_def findMonitorByName_def tap_shaping_def no_monitor_def)

text \<open>
  Claim C2 as stated fails for a button event whose monitor does not resolve: the
  recorded coordinates (100, 200) are not used, no motion is injected, and the button
  event lands where the pointer is.
\<close>

theorem unresolved_button_position_unused:
  "dispatch one_monitor
     (Event0\<lparr>type := MouseButton, ms_since_start := 100, ev_x := 100, ev_y := 200, button := 1,
        pressed := False, monitor := ''HDMI-2'', relx := 100, rely := 200\<rparr>) None
   = [XTestFakeButtonEvent 1 False] \<and>
   XTestFakeMotionEvent 100 200 \<notin> set (dispatch one_monitor
     (Event0\<lparr>type := MouseButton, ms_since_start := 100, ev_x := 100, ev_y := 200, button := 1,
        pressed := False, monitor := ''HDMI-2'', relx := 100, rely := 200\<rparr>) None)"
  by (simp add: dispatch_def Event0_def findMonitorByName_def tap_shaping_def Let_def no_monitor_def)




























text \<open>
  Where the quotient does not fit 64 bits the offset is \<^verbatim>\<open>INT64_MIN\<close> and the event is
  sent without a wait: a timestamp of \<open>5 \<cdot> 10\<^sup>1\<^sup>8\<close> ms, which a file can hold, at
  speed 0.5; and the largest 64-bit timestamp at speed 1.0, whose conversion to a double
  is \<open>2 ^ 63\<close>.
\<close>

lemma overflowing_offset_examples:
  "sched_offset 5000000000000000000 (1 / 2) = INT64_MIN"
  "sched_offset 9223372036854775807 1 = INT64_MIN"
  by code_simp+

lemma overflowing_offset_sent_at_once:
  "map (\<lambda>d. (pass_start d, target_at d, fired_at d))
     (dispatches (PlayerThread_run (steady None)
        [Event0\<lparr>type := Key, ms_since_start := 5000000000000000000, keycode := 38, pressed := True\<rparr>]
        (1 / 2) 1))
   = [(5000, - 9223372036854770808, 5000)]"
  by code_simp

text \<open>
  Claim C4, amended: for every event log of \<open>n > 0\<close> events played without a stop
  request, playback dispatches the log \<open>loops\<close> times over, each pass in log order;
  with loops = 3 that is exactly \<open>3n\<close> dispatches in 3 passes. With "infinite" the loop
  count is \<^verbatim>\<open>INT_MAX\<close>: playback keeps looping until a stop request arrives or
  2147483647 passes are complete. Whatever the stop requests, the dispatched events are
  an initial part of the passes; a stop seen at the \<open>m\<close>-th read of \<^verbatim>\<open>running\<close> allows
  at most \<open>m\<close> dispatches; and the first \<open>j\<close> passes are played in full when the stop
  comes after the \<open>j (n + 1)\<close> reads they take.
\<close>

theorem playback_passes:
  assumes "evs \<noteq> []" and "display_opens env"
  shows "(stop_after env = None \<longrightarrow>
       map event (dispatches (PlayerThread_run env evs speed loops)) =
         concat (replicate (nat (sint loops)) evs) \<and>
       map (\<lambda>d. (pass d, index d)) (dispatches (PlayerThread_run env evs speed loops)) =
         concat (map (\<lambda>p. map (\<lambda>j. (p, j)) [0 ..< length evs]) [0 ..< nat (sint loops)]) \<and>
       map event (dispatches (PlayerThread_run env evs speed 3)) = evs @ evs @ evs \<and>
       length (dispatches (PlayerThread_run env evs speed 3)) = 3 * length evs \<and>
       length (dispatches (PlayerThread_run env evs speed INT_MAX)) = 2147483647 * length evs) \<and>
    (\<exists>j. map event (dispatches (PlayerThread_run env evs speed loops)) =
       take j (concat (replicate (nat (sint loops)) evs))) \<and>
    (\<forall>m. stop_after env = Some m \<longrightarrow>
       length (dispatches (PlayerThread_run env evs speed loops)) \<le> m) \<and>
    (\<forall>m j. stop_after env = Some m \<and> j \<le> nat (sint loops) \<and> j * Suc (length evs) \<le> m \<longrightarrow>
       j * length evs \<le> length (dispatches (PlayerThread_run env evs speed loops))) \<and>
    onTogglePlay False evs spinSpeed True spinLoops = Some (evs, spinSpeed, INT_MAX) \<and>
    onTogglePlay False evs spinSpeed False spinLoops = Some (evs, spinSpeed, spinLoops)"
proof -
  let ?init = "\<lparr>clk = clock0 env, ticks = 0, reads = 0, trace = []\<rparr>"
  have ds: "dispatches (PlayerThread_run env evs speed l) =
      trace (play_loops env speed evs (nat (sint l)) 0 ?init)" for l
    using assms by (rule run_dispatches)
  have full: "map event (dispatches (PlayerThread_run env evs speed l)) =
         concat (replicate (nat (sint l)) evs) \<and>
       map (\<lambda>d. (pass d, index d)) (dispatches (PlayerThread_run env evs speed l)) =
         concat (map (\<lambda>p. map (\<lambda>j. (p, j)) [0 ..< length evs]) [0 ..< nat (sint l)])"
    if none: "stop_after env = None" for l
  proof -
    have "\<forall>r. reads ?init \<le> r \<and> r < reads ?init + nat (sint l) * Suc (length evs) \<longrightarrow>
        sees_running env r"
      using none by (simp add: sees_running_def)
    from play_loops_full [OF this, of speed 0] show ?thesis
      unfolding ds by simp
  qed
  have three: "map event (dispatches (PlayerThread_run env evs speed 3)) = evs @ evs @ evs \<and>
       length (dispatches (PlayerThread_run env evs speed 3)) = 3 * length evs"
    if none: "stop_after env = None"
  proof -
    from full [OF none, of 3]
    have m: "map event (dispatches (PlayerThread_run env evs speed 3)) = concat (replicate 3 evs)"
      by (simp add: sint_3)
    have e: "concat (replicate 3 evs) = evs @ evs @ evs"
      by (simp add: numeral_3_eq_3)
    have "length (map event (dispatches (PlayerThread_run env evs speed 3))) =
        length (evs @ evs @ evs)"
      unfolding m e ..
    then have "length (dispatches (PlayerThread_run env evs speed 3)) = 3 * length evs"
      by simp
    with m e show ?thesis
      by simp
  qed
  have forever: "length (dispatches (PlayerThread_run env evs speed INT_MAX)) =
        2147483647 * length evs"
    if none: "stop_after env = None"
  proof -
    from full [OF none, of INT_MAX]
    have "length (map event (dispatches (PlayerThread_run env evs speed INT_MAX))) =
        length (concat (replicate (nat (sint INT_MAX)) evs))"
      by simp
    then show ?thesis
      unfolding sint_INT_MAX by (simp add: length_concat sum_list_replicate)
  qed
  have initial: "\<exists>j. map event (dispatches (PlayerThread_run env evs speed loops)) =
       take j (concat (replicate (nat (sint loops)) evs))"
    using play_loops_prefix [of env speed evs "nat (sint loops)" 0 ?init]
    unfolding ds by simp
  have bound: "\<forall>m. stop_after env = Some m \<longrightarrow>
       length (dispatches (PlayerThread_run env evs speed loops)) \<le> m"
  proof (intro allI impI)
    fix m
    assume "stop_after env = Some m"
    from play_loops_bound [OF this, of speed evs "nat (sint loops)" 0 ?init]
    show "length (dispatches (PlayerThread_run env evs speed loops)) \<le> m"
      unfolding ds by simp
  qed
  have progress: "\<forall>m j. stop_after env = Some m \<and> j \<le> nat (sint loops) \<and> j * Suc (length evs) \<le> m \<longrightarrow>
       j * length evs \<le> length (dispatches (PlayerThread_run env evs speed loops))"
  proof (intro allI impI)
    fix m j
    assume a: "stop_after env = Some m \<and> j \<le> nat (sint loops) \<and> j * Suc (length evs) \<le> m"
    then have "\<forall>r. reads ?init \<le> r \<and> r < reads ?init + j * Suc (length evs) \<longrightarrow> sees_running env r"
      by (simp add: sees_running_def)
    from play_loops_progress [OF _ this, of "nat (sint loops)" speed 0] a
    show "j * length evs \<le> length (dispatches (PlayerThread_run env evs speed loops))"
      unfolding ds by simp
  qed
  have toggle: "onTogglePlay False evs spinSpeed True spinLoops = Some (evs, spinSpeed, INT_MAX) \<and>
      onTogglePlay False evs spinSpeed False spinLoops = Some (evs, spinSpeed, spinLoops)"
    using assms(1) by (simp add: onTogglePlay_def)
  from full [of loops] three forever initial bound progress toggle show ?thesis
    by blast
qed

theorem playback_passes_witness:
  "[Event0\<lparr>type := Key, ms_since_start := 0, keycode := 38, pressed := True\<rparr>,
    Event0\<lparr>type := Key, ms_since_start := 100, keycode := 38, pressed := False\<rparr>] \<noteq> [] \<and>
   display_opens (steady None) \<and>
   length (dispatches (PlayerThread_run (steady None)
        [Event0\<lparr>type := Key, ms_since_start := 0, keycode := 38, pressed := True\<rparr>,
         Event0\<lparr>type := Key, ms_since_start := 100, keycode := 38, pressed := False\<rparr>] 1 3)) = 6 \<and>
   map event (dispatches (PlayerThread_run (steady None)
        [Event0\<lparr>type := Key, ms_since_start := 0, keycode := 38, pressed := True\<rparr>,
         Event0\<lparr>type := Key, ms_since_start := 100, keycode := 38, pressed := False\<rparr>] 1 3)) =
     [Event0\<lparr>type := Key, ms_since_start := 0, keycode := 38, pressed := True\<rparr>,
      Event0\<lparr>type := Key, ms_since_start := 100, keycode := 38, pressed := False\<rparr>,
      Event0\<lparr>type := Key, ms_since_start := 0, keycode := 38, pressed := True\<rparr>,
      Event0\<lparr>type := Key, ms_since_start := 100, keycode := 38, pressed := False\<rparr>,
      Event0\<lparr>type := Key, ms_since_start := 0, keycode := 38, pressed := True\<rparr>,
      Event0\<lparr>type := Key, ms_since_start := 100, keycode := 38, pressed := False\<rparr>]"
proof -
  have a: "[Event0\<lparr>type := Key, ms_since_start := 0, keycode := 38, pressed := True\<rparr>,
    Event0\<lparr>type := Key, ms_since_start := 100, keycode := 38, pressed := False\<rparr>] \<noteq> []"
    by simp
  have b: "display_opens (steady None)"
    by simp
  have c: "stop_after (steady None) = None"
    by simp
  from playback_passes [OF a b, where speed = 1 and loops = 3 and spinSpeed = 1 and spinLoops = 3]
  have "map event (dispatches (PlayerThread_run (steady None)
        [Event0\<lparr>type := Key, ms_since_start := 0, keycode := 38, pressed := True\<rparr>,
         Event0\<lparr>type := Key, ms_since_start := 100, keycode := 38, pressed := False\<rparr>] 1 3)) =
      [Event0\<lparr>type := Key, ms_since_start := 0, keycode := 38, pressed := True\<rparr>,
         Event0\<lparr>type := Key, ms_since_start := 100, keycode := 38, pressed := False\<rparr>] @
      [Event0\<lparr>type := Key, ms_since_start := 0, keycode := 38, pressed := True\<rparr>,
         Event0\<lparr>type := Key, ms_since_start := 100, keycode := 38, pressed := False\<rparr>] @
      [Event0\<lparr>type := Key, ms_since_start := 0, keycode := 38, pressed := True\<rparr>,
         Event0\<lparr>type := Key, ms_since_start := 100, keycode := 38, pressed := False\<rparr>]"
    and "length (dispatches (PlayerThread_run (steady None)
        [Event0\<lparr>type := Key, ms_since_start := 0, keycode := 38, pressed := True\<rparr>,
         Event0\<lparr>type := Key, ms_since_start := 100, keycode := 38, pressed := False\<rparr>] 1 3)) =
      3 * length [Event0\<lparr>type := Key, ms_since_start := 0, keycode := 38, pressed := True\<rparr>,
         Event0\<lparr>type := Key, ms_since_start := 100, keycode := 38, pressed := False\<rparr>]"
    using c by blast+
  with a b show ?thesis
    by simp
qed

text \<open>
  Claim C4 as stated fails for "infinite": \<^verbatim>\<open>onTogglePlay\<close> passes \<^verbatim>\<open>INT_MAX\<close> for
  it, and with no stop request at all playback of a one-event log ends by itself after
  2147483647 dispatches.
\<close>

theorem infinite_playback_ends_without_stop:
  "onTogglePlay False [Event0\<lparr>type := Key, ms_since_start := 0, keycode := 38, pressed := True\<rparr>]
      1 True 1 =
     Some ([Event0\<lparr>type := Key, ms_since_start := 0, keycode := 38, pressed := True\<rparr>], 1, INT_MAX) \<and>
   stop_after (steady None) = None \<and>
   length (dispatches (PlayerThread_run (steady None)
      [Event0\<lparr>type := Key, ms_since_start := 0, keycode := 38, pressed := True\<rparr>] 1 INT_MAX))
     = 2147483647 \<and>
   statuses (PlayerThread_run (steady None)
      [Event0\<lparr>type := Key, ms_since_start := 0, keycode := 38, pressed := True\<rparr>] 1 INT_MAX)
     = [''Playing...'', ''Playback finished.'']"
proof -
  let ?evs = "[Event0\<lparr>type := Key, ms_since_start := 0, keycode := 38, pressed := True\<rparr>]"
  let ?init = "\<lparr>clk = clock0 (steady None), ticks = 0, reads = 0, trace = []\<rparr>"
  have "\<forall>r. reads ?init \<le> r \<and> r < reads ?init + 2147483647 * Suc (length ?evs) \<longrightarrow>
      sees_running (steady None) r"
    by (simp add: sees_running_def)
  from play_loops_full [OF this, of 1 0]
  have "map event (trace (play_loops (steady None) 1 ?evs 2147483647 0 ?init)) =
      concat (replicate 2147483647 ?evs)"
    by simp
  then have "length (map event (trace (play_loops (steady None) 1 ?evs 2147483647 0 ?init))) =
      length (concat (replicate 2147483647 ?evs))"
    by (rule arg_cong)
  then have "length (trace (play_loops (steady None) 1 ?evs 2147483647 0 ?init)) = 2147483647"
    by (simp add: length_concat sum_list_replicate)
  moreover have "dispatches (PlayerThread_run (steady None) ?evs 1 INT_MAX) =
      trace (play_loops (steady None) 1 ?evs (nat (sint INT_MAX)) 0 ?init)"
    by (rule run_dispatches) simp_all
  ultimately have "length (dispatches (PlayerThread_run (steady None) ?evs 1 INT_MAX)) = 2147483647"
    by (simp add: sint_INT_MAX)
  moreover have "statuses (PlayerThread_run (steady None) ?evs 1 INT_MAX) =
      [''Playing...'', ''Playback finished.'']"
    by (rule run_finishes) simp_all
  ultimately show ?thesis
    by (simp add: onTogglePlay_def)
qed

subsection \<open>The logs the program builds\<close>

lemma loaded_record_variant: "variant_fields_only (load_record_object v)"
  by (simp add: load_record_object_def Let_def variant_fields_only_def Event0_def)

lemma loader_builds_variant_fields: "\<forall>e \<in> set (loadRecq file). variant_fields_only e"
proof (cases "file")
  case None
  then show ?thesis by (simp add: loadRecq_def)
next
  case (Some doc)
  then show ?thesis
    by (cases doc) (auto simp: loadRecq_def load_record_array_eq loaded_record_variant)
qed

lemma recorder_step_variant:
  assumes "\<forall>e \<in> set (events st). variant_fields_only e"
  shows "\<forall>e \<in> set (events (recorder_step start st n)). variant_fields_only e"
proof -
  obtain ev r where n: "n = (ev, r)" by (cases n)
  show ?thesis
  proof (cases ev)
    case Foreign
    with assms n show ?thesis by simp
  next
    case (Raw ty d)
    with assms n show ?thesis
      by (cases ty)
         (auto simp: Let_def variant_fields_only_def mouse_event_fields Event0_def)
  qed
qed

lemma capture_loop_variant: "\<forall>e \<in> set (events (capture_loop start stream)). variant_fields_only e"
proof (induction stream rule: rev_induct)
  case Nil
  then show ?case by (simp add: capture_loop_def recorder_init_def)
next
  case (snoc n stream)
  then show ?case
    unfolding capture_loop_snoc by (rule recorder_step_variant)
qed

lemma synthesized_variant:
  "\<forall>e \<in> set (synthesized iteration start st stopped). variant_fields_only e"
  by (auto simp: synthesized_def Let_def variant_fields_only_def mouse_event_fields)

lemma recorder_builds_variant_fields:
  assumes "RecorderThread_run s iteration start stream stopped = Recorded evs"
  shows "\<forall>e \<in> set evs. variant_fields_only e"
proof (cases s)
  case Ready
  with assms have "evs = events (capture_loop start stream) @
      synthesized iteration start (capture_loop start stream) stopped"
    by (simp add: RecorderThread_run_def Let_def)
  then show ?thesis
    using capture_loop_variant [of start stream]
      synthesized_variant [of iteration start "capture_loop start stream" stopped]
    by auto
qed (use assms in \<open>simp_all add: RecorderThread_run_def\<close>)

text \<open>What loading makes of a saved record, by the type of the event.\<close>

lemma load_saved_MouseMove:
  assumes "type e = MouseMove" "int64_double (ms_since_start e)"
  shows "load_record_object (save_record e) =
     Event0\<lparr>type := MouseMove, ms_since_start := ms_since_start e, ev_x := ev_x e, ev_y := ev_y e\<rparr>"
  using assms
  by (simp add: save_record_def load_record_object_def obj_set_def obj_value_def Let_def
      toInt_JInt int64_double_roundtrip)

lemma load_saved_MouseButton:
  assumes "type e = MouseButton" "int64_double (ms_since_start e)"
  shows "load_record_object (save_record e) =
     Event0\<lparr>type := MouseButton, ms_since_start := ms_since_start e, ev_x := ev_x e, ev_y := ev_y e,
       button := button e, pressed := pressed e\<rparr>"
  using assms
  by (simp add: save_record_def load_record_object_def obj_set_def obj_value_def Let_def
      toInt_JInt int64_double_roundtrip)

lemma load_saved_Key:
  assumes "type e = Key" "int64_double (ms_since_start e)"
  shows "load_record_object (save_record e) =
     Event0\<lparr>type := Key, ms_since_start := ms_since_start e, keycode := keycode e,
       pressed := pressed e\<rparr>"
  using assms
  by (simp add: save_record_def load_record_object_def obj_set_def obj_value_def Let_def
      toInt_JInt int64_double_roundtrip)

text \<open>
  An event whose timestamp is a double and whose other fields are those of its type
  comes back as it was, but for the monitor name and the relative coordinates.
\<close>

lemma load_saved_event:
  assumes "int64_double (ms_since_start e)" "variant_fields_only e"
  shows "load_record_object (save_record e) = e\<lparr>monitor := [], relx := 0, rely := 0\<rparr>"
proof (cases "type e")
  case MouseMove
  with assms show ?thesis
    unfolding load_saved_MouseMove [OF MouseMove assms(1)]
    by (cases e) (simp add: Event0_def variant_fields_only_def)
next
  case MouseButton
  with assms show ?thesis
    unfolding load_saved_MouseButton [OF MouseButton assms(1)]
    by (cases e) (simp add: Event0_def variant_fields_only_def)
next
  case Key
  with assms show ?thesis
    unfolding load_saved_Key [OF Key assms(1)]
    by (cases e) (simp add: Event0_def variant_fields_only_def)
qed

lemma load_saved_log:
  assumes "\<forall>e \<in> set evs. int64_double (ms_since_start e) \<and> variant_fields_only e"
  shows "loadRecq (snd (saveRecq True evs)) = map (\<lambda>e. e\<lparr>monitor := [], relx := 0, rely := 0\<rparr>) evs"
  unfolding load_saved_file using assms by (simp add: load_saved_event)

text \<open>The timestamps the loader builds.\<close>

lemma obj_value_doubles:
  assumes "json_doubles (JObject ms)"
  shows "json_doubles (obj_value ms k)"
proof (cases "map_of ms k")
  case None
  then show ?thesis by (simp add: obj_value_def)
next
  case (Some w)
  then have "(k, w) \<in> set ms" by (rule map_of_SomeD)
  with assms have "json_doubles w"
    by (auto simp: list_all_iff)
  with Some show ?thesis by (simp add: obj_value_def)
qed

lemma toObject_doubles: "json_doubles v \<Longrightarrow> json_doubles (JObject (toObject v))"
  by (cases v) simp_all

lemma toArray_doubles: "json_doubles v \<Longrightarrow> w \<in> set (toArray v) \<Longrightarrow> json_doubles w"
  by (cases v) (auto simp: list_all_iff)

lemma toDouble_double: "json_doubles v \<Longrightarrow> rnd53 (toDouble v) = toDouble v"
  by (cases v) (simp_all add: rnd53_def)

lemma loaded_record_stamp:
  "ms_since_start (load_record_object v) = int64_of_double (toDouble (obj_value (toObject v) ''t''))"
  by (simp add: load_record_object_def Let_def Event0_def)

lemma loaded_record_exact:
  assumes "json_doubles v"
  shows "int64_double (ms_since_start (load_record_object v))"
  unfolding loaded_record_stamp
  using assms by (intro int64_of_double_exact toDouble_double obj_value_doubles toObject_doubles)

lemma loaded_record_plain:
  "(load_record_object v)\<lparr>monitor := [], relx := 0, rely := 0\<rparr> = load_record_object v"
  by (simp add: load_record_object_def Let_def Event0_def)

lemma records_doubles:
  assumes "json_doubles doc" "w \<in> set (case doc of JObject rootobj \<Rightarrow> toArray (obj_value rootobj ''events'')
     | JArray arr \<Rightarrow> arr | _ \<Rightarrow> [])"
  shows "json_doubles w"
proof (cases doc)
  case (JObject rootobj)
  with assms(1) have "json_doubles (obj_value rootobj ''events'')"
    using obj_value_doubles by blast
  with assms(2) JObject show ?thesis
    using toArray_doubles by auto
next
  case (JArray arr)
  with assms show ?thesis by (auto simp: list_all_iff)
qed (use assms in simp_all)

lemma loadRecq_records:
  "loadRecq (Some doc) = map load_record_object
     (case doc of JObject rootobj \<Rightarrow> toArray (obj_value rootobj ''events'')
     | JArray arr \<Rightarrow> arr | _ \<Rightarrow> [])"
  by (cases doc) (simp_all add: loadRecq_def load_record_array_eq)

lemma loader_builds_doubles:
  assumes "json_doubles doc"
  shows "\<forall>e \<in> set (loadRecq (Some doc)). int64_double (ms_since_start e)"
  unfolding loadRecq_records using records_doubles [OF assms] loaded_record_exact by auto

lemma loaded_log_plain:
  "map (\<lambda>e. e\<lparr>monitor := [], relx := 0, rely := 0\<rparr>) (loadRecq (Some doc)) = loadRecq (Some doc)"
  unfolding loadRecq_records by (simp add: loaded_record_plain)

text \<open>The timestamps the recorder builds.\<close>

lemma recorder_step_stamps:
  assumes "\<forall>e \<in> set (events st). int64_double (ms_since_start e)"
    and "\<bar>now (snd n) - start\<bar> \<le> 2 ^ 53"
  shows "\<forall>e \<in> set (events (recorder_step start st n)). int64_double (ms_since_start e)"
proof -
  obtain ev r where n: "n = (ev, r)" by (cases n)
  with assms(2) have t: "int64_double (now r - start)"
    by (simp add: int64_double_small)
  show ?thesis
  proof (cases ev)
    case Foreign
    with assms n show ?thesis by simp
  next
    case (Raw ty d)
    with assms(1) n t show ?thesis
      by (cases ty) (auto simp: Let_def mouse_event_fields Event0_def)
  qed
qed

lemma capture_loop_stamps:
  assumes "\<forall>r \<in> set (map snd stream). \<bar>now r - start\<bar> \<le> 2 ^ 53"
  shows "\<forall>e \<in> set (events (capture_loop start stream)). int64_double (ms_since_start e)"
  using assms
proof (induction stream rule: rev_induct)
  case Nil
  then show ?case by (simp add: capture_loop_def recorder_init_def)
next
  case (snoc n stream)
  have "\<forall>e \<in> set (events (capture_loop start stream)). int64_double (ms_since_start e)"
    using snoc by simp
  moreover have "\<bar>now (snd n) - start\<bar> \<le> 2 ^ 53"
    using snoc.prems by simp
  ultimately show ?case
    unfolding capture_loop_snoc by (rule recorder_step_stamps)
qed

lemma synthesized_stamps:
  assumes "\<bar>now stopped - start\<bar> \<le> 2 ^ 53"
  shows "\<forall>e \<in> set (synthesized iteration start st stopped). int64_double (ms_since_start e)"
  using int64_double_small [OF assms]
  by (auto simp: synthesized_def Let_def mouse_event_fields)

lemma recorder_builds_doubles:
  assumes "RecorderThread_run s iteration start stream stopped = Recorded evs"
    and "\<forall>r \<in> set (stopped # map snd stream). \<bar>now r - start\<bar> \<le> 2 ^ 53"
  shows "\<forall>e \<in> set evs. int64_double (ms_since_start e)"
proof (cases s)
  case Ready
  with assms(1) have "evs = events (capture_loop start stream) @
      synthesized iteration start (capture_loop start stream) stopped"
    by (simp add: RecorderThread_run_def Let_def)
  moreover have "\<forall>r \<in> set (map snd stream). \<bar>now r - start\<bar> \<le> 2 ^ 53"
    using assms(2) by simp
  moreover have "\<bar>now stopped - start\<bar> \<le> 2 ^ 53"
    using assms(2) by simp
  ultimately show ?thesis
    using capture_loop_stamps [of stream start]
      synthesized_stamps [of stopped start iteration "capture_loop start stream"]
    by auto
qed (use assms in \<open>simp_all add: RecorderThread_run_def\<close>)

text \<open>
  Claim C5: loading the file that saving an event log wrote gives the log back, event by
  event, in type, timestamp, x and y, button id, press flag and keycode, with the monitor
  name empty and the relative coordinates zero. It holds for every log whose events
  carry, outside the fields of their type, the defaults of the struct, and whose
  timestamps are 64-bit integers that are doubles (\<^verbatim>\<open>saveRecq\<close> writes
  \<^verbatim>\<open>(double)e.ms_since_start\<close>). The logs the program holds in \<^verbatim>\<open>recorded\<close> are such
  logs: a log \<^verbatim>\<open>loadRecq\<close> built from a document, whose numbers are doubles, and it
  comes back unchanged; and a log \<^verbatim>\<open>RecorderThread::run\<close> handed over, its timestamps
  being differences of clock readings (here no more than \<open>2 ^ 53\<close> ms apart, some
  285 000 years).
\<close>

theorem save_then_load_preserves_events:
  "((\<forall>e \<in> set evs. int64_double (ms_since_start e) \<and> variant_fields_only e) \<longrightarrow>
      fst (saveRecq True evs) \<and>
      loadRecq (snd (saveRecq True evs)) =
        map (\<lambda>e. e\<lparr>monitor := [], relx := 0, rely := 0\<rparr>) evs) \<and>
   (json_doubles doc \<longrightarrow>
      (\<forall>e \<in> set (loadRecq (Some doc)). int64_double (ms_since_start e) \<and> variant_fields_only e) \<and>
      loadRecq (snd (saveRecq True (loadRecq (Some doc)))) = loadRecq (Some doc)) \<and>
   (RecorderThread_run s iteration start stream stopped = Recorded captured \<and>
    (\<forall>r \<in> set (stopped # map snd stream). \<bar>now r - start\<bar> \<le> 2 ^ 53) \<longrightarrow>
      (\<forall>e \<in> set captured. int64_double (ms_since_start e) \<and> variant_fields_only e) \<and>
      loadRecq (snd (saveRecq True captured)) =
        map (\<lambda>e. e\<lparr>monitor := [], relx := 0, rely := 0\<rparr>) captured)"
proof (intro conjI impI)
  assume "\<forall>e \<in> set evs. int64_double (ms_since_start e) \<and> variant_fields_only e"
  then show "loadRecq (snd (saveRecq True evs)) =
      map (\<lambda>e. e\<lparr>monitor := [], relx := 0, rely := 0\<rparr>) evs"
    by (rule load_saved_log)
  show "fst (saveRecq True evs)"
    by (simp add: saveRecq_def)
next
  assume d: "json_doubles doc"
  show l: "\<forall>e \<in> set (loadRecq (Some doc)). int64_double (ms_since_start e) \<and> variant_fields_only e"
    using loader_builds_doubles [OF d] loader_builds_variant_fields [of "Some doc"] by blast
  show "loadRecq (snd (saveRecq True (loadRecq (Some doc)))) = loadRecq (Some doc)"
    unfolding load_saved_log [OF l] by (rule loaded_log_plain)
next
  assume r: "RecorderThread_run s iteration start stream stopped = Recorded captured \<and>
    (\<forall>r \<in> set (stopped # map snd stream). \<bar>now r - start\<bar> \<le> 2 ^ 53)"
  then have run: "RecorderThread_run s iteration start stream stopped = Recorded captured"
    and clock: "\<forall>r \<in> set (stopped # map snd stream). \<bar>now r - start\<bar> \<le> 2 ^ 53"
    by blast+
  show c: "\<forall>e \<in> set captured. int64_double (ms_since_start e) \<and> variant_fields_only e"
    using recorder_builds_doubles [OF run clock] recorder_builds_variant_fields [OF run] by blast
  show "loadRecq (snd (saveRecq True captured)) =
      map (\<lambda>e. e\<lparr>monitor := [], relx := 0, rely := 0\<rparr>) captured"
    using c by (rule load_saved_log)
qed

lemma wrapped_example_doubles:
  "json_doubles (JObject [(''events'', JArray [JObject [(''t'', JDouble 40), (''type'', JString ''mm''),
        (''x'', JDouble 10), (''y'', JDouble 20)]]), (''format'', JString ''recq-v1'')])"
  by code_simp

theorem save_then_load_preserves_events_witness:
  "loadRecq (snd (saveRecq True
      [Event0\<lparr>type := MouseMove, ms_since_start := 0, ev_x := 100, ev_y := 200,
         monitor := ''DP-1'', relx := 100, rely := 200\<rparr>,
       Event0\<lparr>type := MouseButton, ms_since_start := 120, ev_x := 100, ev_y := 200, button := 1,
         pressed := True, monitor := ''DP-1'', relx := 100, rely := 200\<rparr>,
       Event0\<lparr>type := Key, ms_since_start := 300, keycode := 38, pressed := True\<rparr>]))
   = [Event0\<lparr>type := MouseMove, ms_since_start := 0, ev_x := 100, ev_y := 200\<rparr>,
      Event0\<lparr>type := MouseButton, ms_since_start := 120, ev_x := 100, ev_y := 200, button := 1,
         pressed := True\<rparr>,
      Event0\<lparr>type := Key, ms_since_start := 300, keycode := 38, pressed := True\<rparr>] \<and>
   json_doubles (JObject [(''events'', JArray [JObject [(''t'', JDouble 40), (''type'', JString ''mm''),
        (''x'', JDouble 10), (''y'', JDouble 20)]]), (''format'', JString ''recq-v1'')]) \<and>
   loadRecq (snd (saveRecq True (loadRecq (Some
     (JObject [(''events'', JArray [JObject [(''t'', JDouble 40), (''type'', JString ''mm''),
        (''x'', JDouble 10), (''y'', JDouble 20)]]), (''format'', JString ''recq-v1'')])))))
   = [Event0\<lparr>ms_since_start := 40, ev_x := 10, ev_y := 20\<rparr>] \<and>
   loadRecq (snd (saveRecq True
     [Event0\<lparr>type := MouseButton, ms_since_start := 5, ev_x := 10, ev_y := 20, button := 1,
        pressed := True, monitor := ''DP-1'', relx := 10, rely := 20\<rparr>,
      Event0\<lparr>type := MouseMove, ms_since_start := 6, ev_x := 2000, ev_y := 20, relx := 2000, rely := 20\<rparr>,
      Event0\<lparr>type := MouseButton, ms_since_start := 7, ev_x := 10, ev_y := 20, button := 3,
        pressed := True, monitor := ''DP-1'', relx := 10, rely := 20\<rparr>,
      Event0\<lparr>type := MouseButton, ms_since_start := 8, ev_x := 10, ev_y := 20, button := 1,
        pressed := False, monitor := ''DP-1'', relx := 10, rely := 20\<rparr>,
      Event0\<lparr>type := MouseButton, ms_since_start := 100, ev_x := 30, ev_y := 40, button := 3,
        pressed := False, monitor := ''DP-1'', relx := 30, rely := 40\<rparr>]))
   = [Event0\<lparr>type := MouseButton, ms_since_start := 5, ev_x := 10, ev_y := 20, button := 1,
        pressed := True\<rparr>,
      Event0\<lparr>type := MouseMove, ms_since_start := 6, ev_x := 2000, ev_y := 20\<rparr>,
      Event0\<lparr>type := MouseButton, ms_since_start := 7, ev_x := 10, ev_y := 20, button := 3,
        pressed := True\<rparr>,
      Event0\<lparr>type := MouseButton, ms_since_start := 8, ev_x := 10, ev_y := 20, button := 1,
        pressed := False\<rparr>,
      Event0\<lparr>type := MouseButton, ms_since_start := 100, ev_x := 30, ev_y := 40, button := 3,
        pressed := False\<rparr>]"
proof -
  let ?evs = "[Event0\<lparr>type := MouseMove, ms_since_start := 0, ev_x := 100, ev_y := 200,
         monitor := ''DP-1'', relx := 100, rely := 200\<rparr>,
       Event0\<lparr>type := MouseButton, ms_since_start := 120, ev_x := 100, ev_y := 200, button := 1,
         pressed := True, monitor := ''DP-1'', relx := 100, rely := 200\<rparr>,
       Event0\<lparr>type := Key, ms_since_start := 300, keycode := 38, pressed := True\<rparr>]"
  let ?doc = "JObject [(''events'', JArray [JObject [(''t'', JDouble 40), (''type'', JString ''mm''),
        (''x'', JDouble 10), (''y'', JDouble 20)]]), (''format'', JString ''recq-v1'')]"
  let ?stream = "[(Raw XI_RawButtonPress 1, read_at 1005 10 20), (Raw XI_RawMotion 0, read_at 1006 2000 20),
      (Raw XI_RawButtonPress 3, read_at 1007 10 20), (Raw XI_RawButtonRelease 1, read_at 1008 10 20)]"
  let ?cap = "[Event0\<lparr>type := MouseButton, ms_since_start := 5, ev_x := 10, ev_y := 20, button := 1,
        pressed := True, monitor := ''DP-1'', relx := 10, rely := 20\<rparr>,
      Event0\<lparr>type := MouseMove, ms_since_start := 6, ev_x := 2000, ev_y := 20, relx := 2000, rely := 20\<rparr>,
      Event0\<lparr>type := MouseButton, ms_since_start := 7, ev_x := 10, ev_y := 20, button := 3,
        pressed := True, monitor := ''DP-1'', relx := 10, rely := 20\<rparr>,
      Event0\<lparr>type := MouseButton, ms_since_start := 8, ev_x := 10, ev_y := 20, button := 1,
        pressed := False, monitor := ''DP-1'', relx := 10, rely := 20\<rparr>,
      Event0\<lparr>type := MouseButton, ms_since_start := 100, ev_x := 30, ev_y := 40, button := 3,
        pressed := False, monitor := ''DP-1'', relx := 30, rely := 40\<rparr>]"
  note t = save_then_load_preserves_events [of ?evs ?doc Ready "\<lambda>bs. bs" 1000 ?stream
      "read_at 1100 30 40" ?cap]
  have h1: "\<forall>e \<in> set ?evs. int64_double (ms_since_start e) \<and> variant_fields_only e"
    by (simp add: int64_double_small variant_fields_only_def Event0_def)
  have h2: "json_doubles ?doc"
    by (rule wrapped_example_doubles)
  have h3: "RecorderThread_run Ready (\<lambda>bs. bs) 1000 ?stream (read_at 1100 30 40) = Recorded ?cap"
    by (rule capture_example)
  have h4: "\<forall>r \<in> set (read_at 1100 30 40 # map snd ?stream). \<bar>now r - 1000\<bar> \<le> 2 ^ 53"
    by simp
  from t h1 have "loadRecq (snd (saveRecq True ?evs)) =
      map (\<lambda>e. e\<lparr>monitor := [], relx := 0, rely := 0\<rparr>) ?evs"
    by blast
  then have a: "loadRecq (snd (saveRecq True ?evs)) =
     [Event0\<lparr>type := MouseMove, ms_since_start := 0, ev_x := 100, ev_y := 200\<rparr>,
      Event0\<lparr>type := MouseButton, ms_since_start := 120, ev_x := 100, ev_y := 200, button := 1,
         pressed := True\<rparr>,
      Event0\<lparr>type := Key, ms_since_start := 300, keycode := 38, pressed := True\<rparr>]"
    by (simp add: Event0_def)
  have l: "loadRecq (Some ?doc) = [Event0\<lparr>ms_since_start := 40, ev_x := 10, ev_y := 20\<rparr>]"
    by (simp add: loadRecq_def load_record_object_def obj_value_def Event0_def int64_of_double_def Let_def)
  from t h2 have "loadRecq (snd (saveRecq True (loadRecq (Some ?doc)))) = loadRecq (Some ?doc)"
    by blast
  then have b: "loadRecq (snd (saveRecq True (loadRecq (Some ?doc)))) =
      [Event0\<lparr>ms_since_start := 40, ev_x := 10, ev_y := 20\<rparr>]"
    by (simp only: l)
  from t h3 h4 have "loadRecq (snd (saveRecq True ?cap)) =
      map (\<lambda>e. e\<lparr>monitor := [], relx := 0, rely := 0\<rparr>) ?cap"
    by blast
  then have c: "loadRecq (snd (saveRecq True ?cap)) =
     [Event0\<lparr>type := MouseButton, ms_since_start := 5, ev_x := 10, ev_y := 20, button := 1,
        pressed := True\<rparr>,
      Event0\<lparr>type := MouseMove, ms_since_start := 6, ev_x := 2000, ev_y := 20\<rparr>,
      Event0\<lparr>type := MouseButton, ms_since_start := 7, ev_x := 10, ev_y := 20, button := 3,
        pressed := True\<rparr>,
      Event0\<lparr>type := MouseButton, ms_since_start := 8, ev_x := 10, ev_y := 20, button := 1,
        pressed := False\<rparr>,
      Event0\<lparr>type := MouseButton, ms_since_start := 100, ev_x := 30, ev_y := 40, button := 3,
        pressed := False\<rparr>]"
    by (simp add: Event0_def)
  from a h2 b c show ?thesis
    by (intro conjI)
qed

text \<open>
  An event value whose timestamp is not a double is outside these logs: no clock
  difference of a capture and no conversion of a double by the loader gives \<open>2 ^ 53 + 1\<close>.
  \<^verbatim>\<open>saveRecq\<close> would round it to \<open>2 ^ 53\<close>.
\<close>

lemma inexact_timestamp_is_rounded:
  "\<not> int64_double 9007199254740993 \<and>
   map ms_since_start (loadRecq (snd (saveRecq True
      [Event0\<lparr>type := Key, ms_since_start := 9007199254740993, keycode := 38, pressed := True\<rparr>])))
   = [9007199254740992]"
  by (simp add: load_saved_file save_record_def load_record_object_def obj_set_def obj_value_def
      Let_def Event0_def double_of_large int64_of_double_def int64_double_def)

end
